theory Spec2Isabelle
  imports Main "HOL-Library.Word" "HOL-Library.Multiset"
begin

unbundle bit_operations_syntax

section \<open>Data model of class\_map.cpp\<close>

type_synonym u32 = "32 word"

text \<open>
  The Python objects the table meets: strings (by content; the keys are interned, so
  identity and content agree), Member descriptors (by identity), exact dicts (their
  items in iteration order) and everything else.
\<close>

datatype pyobject =
    PyString string
  | Member nat
  | PyDict "(pyobject \<times> pyobject) list"
  | PyOther nat

text \<open>
  \<^verbatim>\<open>struct ClassMapEntry { PyStringObject* name; Member* member; uint32_t index; }\<close>.
  A null pointer is \<open>None\<close>.
\<close>

record ClassMapEntry =
  name :: "string option"
  member :: "nat option"
  index :: u32

text \<open>
  The ClassMap object (declared in class\_map.h): the entry array, its length
  \<open>allocated\<close> and the running \<open>member_count\<close>.
\<close>

record ClassMap =
  entries :: "ClassMapEntry list"
  allocated :: u32
  member_count :: u32

text \<open>Reference counts of the objects (\<open>ob_refcnt\<close>), as an explicit store.\<close>

type_synonym refcounts = "pyobject \<Rightarrow> int"

text \<open>
  The errors \<open>ClassMap_new\<close> can return with. Modelled from the spec:
  \<open>py_expected_type_fail\<close> (pythonhelpers.h) is not part of the sources at hand; the spec
  calls its result "a type-mismatch error identifying the offending key or value and its
  expected capability", here the object and the type name the call passes.
\<close>

datatype error =
    ExpectedTypeFail pyobject string
  | NoMemory
  | TypeAllocFail

section \<open>Helpers from outside the file\<close>

text \<open>The CPython macros \<open>Py_INCREF\<close> and \<open>Py_DECREF\<close>, on the store.\<close>

definition Py_INCREF :: "refcounts \<Rightarrow> pyobject \<Rightarrow> refcounts" where
  "Py_INCREF rc ob = rc(ob := rc ob + 1)"

definition Py_DECREF :: "refcounts \<Rightarrow> pyobject \<Rightarrow> refcounts" where
  "Py_DECREF rc ob = rc(ob := rc ob - 1)"

text \<open>
  Modelled from the spec: \<open>utils::pystr_equal\<close> (utils.h) is not part of the sources at
  hand. The spec: a key "compares equal to name (fast path: identity; fallback: content
  equality)". On strings taken by content that is equality.
\<close>

definition pystr_equal :: "string \<Rightarrow> string \<Rightarrow> bool" where
  "pystr_equal a b = (a = b)"

text \<open>
  Modelled from the spec: \<open>utils::next_power_of_2\<close> (utils.h) is not part of the sources
  at hand. The spec calls it \<open>next_power_of_two\<close> and its result a power of two: the
  least power of two that is at least the argument. \<open>next_power_of_two_from p n\<close> doubles
  \<open>p\<close> until it reaches \<open>n\<close>.
\<close>

function next_power_of_two_from :: "nat \<Rightarrow> nat \<Rightarrow> nat" where
  "next_power_of_two_from p n =
     (if n \<le> p \<or> p = 0 then p else next_power_of_two_from (2 * p) n)"
  by pat_completeness auto

termination
  by (relation "measure (\<lambda>(p, n). n - p)") auto

declare next_power_of_two_from.simps [simp del]

definition next_power_of_two :: "nat \<Rightarrow> nat" where
  "next_power_of_two n = next_power_of_two_from 1 n"

text \<open>The same on \<open>uint32_t\<close>: a result of \<open>2 ^ 32\<close> does not fit and wraps to 0.\<close>

definition next_power_of_2 :: "u32 \<Rightarrow> u32" where
  "next_power_of_2 n = word_of_nat (next_power_of_two (unat n))"

section \<open>ClassMap\_LookupMember\<close>

text \<open>
  The \<open>while( true )\<close> loop of \<open>ClassMap_LookupMember\<close>. \<open>out\<close> holds the contents of
  the caller's \<open>*member\<close> and \<open>*index\<close>. The result \<open>None\<close> stands for no normal return:
  the loop runs forever, or it reads outside the entry array.
\<close>

partial_function (option) ClassMap_LookupMember_loop ::
  "ClassMapEntry list \<Rightarrow> u32 \<Rightarrow> string \<Rightarrow> u32 \<Rightarrow> u32 \<Rightarrow> nat option \<times> u32
     \<Rightarrow> (nat option \<times> u32) option" where
  "ClassMap_LookupMember_loop base msk nm hash bucket out =
     (if unat bucket < length base then
        (let entry = base ! unat bucket in
         case name entry of
           None \<Rightarrow> Some out
         | Some k \<Rightarrow>
             if pystr_equal nm k then Some (member entry, index entry)
             else ClassMap_LookupMember_loop base msk nm (drop_bit 5 hash)
                    ((push_bit 2 bucket + bucket + hash + 1) AND msk) out)
      else None)"

declare ClassMap_LookupMember_loop.simps [code]

definition ClassMap_LookupMember ::
  "(string \<Rightarrow> u32) \<Rightarrow> ClassMap \<Rightarrow> string \<Rightarrow> nat option \<times> u32
     \<Rightarrow> (nat option \<times> u32) option" where
  "ClassMap_LookupMember h cmap nm out =
     (let msk = allocated cmap - 1;
          hash = h nm;
          bucket = hash AND msk
      in ClassMap_LookupMember_loop (entries cmap) msk nm hash bucket out)"

section \<open>insert\_member\<close>

text \<open>The \<open>while( true )\<close> loop of \<open>insert_member\<close>, on the table and the reference counts.\<close>

partial_function (option) insert_member_loop ::
  "u32 \<Rightarrow> string \<Rightarrow> nat \<Rightarrow> u32 \<Rightarrow> u32 \<Rightarrow> ClassMap \<times> refcounts
     \<Rightarrow> (ClassMap \<times> refcounts) option" where
  "insert_member_loop msk nm mem hash bucket st =
     (if unat bucket < length (entries (fst st)) then
        (case name (entries (fst st) ! unat bucket) of
           None \<Rightarrow>
             Some ((fst st)\<lparr>entries := (entries (fst st))
                       [unat bucket := \<lparr>name = Some nm, member = Some mem,
                                        index = member_count (fst st)\<rparr>],
                     member_count := member_count (fst st) + 1\<rparr>,
                   Py_INCREF (Py_INCREF (snd st) (PyString nm)) (Member mem))
         | Some k \<Rightarrow>
             insert_member_loop msk nm mem (drop_bit 5 hash)
               ((push_bit 2 bucket + bucket + hash + 1) AND msk) st)
      else None)"

declare insert_member_loop.simps [code]

definition insert_member ::
  "(string \<Rightarrow> u32) \<Rightarrow> ClassMap \<times> refcounts \<Rightarrow> string \<Rightarrow> nat
     \<Rightarrow> (ClassMap \<times> refcounts) option" where
  "insert_member h st nm mem =
     (let msk = allocated (fst st) - 1;
          hash = h nm;
          bucket = hash AND msk
      in insert_member_loop msk nm mem hash bucket st)"

section \<open>ClassMap\_new\<close>

text \<open>
  The \<open>while( PyDict_Next(...) )\<close> loop. On a type error the table built so far is part of
  the result, for \<open>ClassMap_new\<close> to dispose of.
\<close>

fun ClassMap_new_loop ::
  "(string \<Rightarrow> u32) \<Rightarrow> ClassMap \<times> refcounts \<Rightarrow> (pyobject \<times> pyobject) list
     \<Rightarrow> (error \<times> ClassMap \<times> refcounts + ClassMap \<times> refcounts) option" where
  "ClassMap_new_loop h st [] = Some (Inr st)"
| "ClassMap_new_loop h st ((key, val) # rest) =
     (case key of
        PyString k \<Rightarrow>
          (case val of
             Member m \<Rightarrow>
               (case insert_member h st k m of
                  None \<Rightarrow> None
                | Some st' \<Rightarrow> ClassMap_new_loop h st' rest)
           | _ \<Rightarrow> Some (Inl (ExpectedTypeFail val ''Member'', st)))
      | _ \<Rightarrow> Some (Inl (ExpectedTypeFail key ''str'', st)))"

text \<open>The capacity computed at lines 107 to 109, from the dict's size.\<close>

definition planned_allocated :: "nat \<Rightarrow> u32" where
  "planned_allocated len =
     (let dsize = (word_of_nat len :: u32);
          count = max dsize 3
      in next_power_of_2 (count * 4 div 3))"

text \<open>A slot after \<open>memset( entrymem, 0, memsize )\<close>.\<close>

definition zero_entry :: ClassMapEntry where
  "zero_entry = \<lparr>name = None, member = None, index = 0\<rparr>"

section \<open>ClassMap\_clear, ClassMap\_traverse, ClassMap\_dealloc\<close>

text \<open>
  The \<open>for\<close> loop of \<open>ClassMap_clear\<close>, over the slot numbers \<open>0 ..< allocated\<close>.
  \<open>Py_CLEAR( p )\<close> sets a non-null \<open>p\<close> to null and drops one reference to the object.
\<close>

fun ClassMap_clear_loop ::
  "nat list \<Rightarrow> ClassMapEntry list \<times> refcounts \<Rightarrow> (ClassMapEntry list \<times> refcounts) option" where
  "ClassMap_clear_loop [] st = Some st"
| "ClassMap_clear_loop (i # rest) (base, rc) =
     (if i < length base then
        (let entry = base ! i in
         case name entry of
           None \<Rightarrow> ClassMap_clear_loop rest (base, rc)
         | Some k \<Rightarrow>
             (let rc1 = Py_DECREF rc (PyString k);
                  rc2 = (case member entry of None \<Rightarrow> rc1 | Some m \<Rightarrow> Py_DECREF rc1 (Member m))
              in ClassMap_clear_loop rest
                   (base[i := entry\<lparr>name := None, member := None\<rparr>], rc2)))
      else None)"

definition ClassMap_clear :: "ClassMap \<times> refcounts \<Rightarrow> (ClassMap \<times> refcounts) option" where
  "ClassMap_clear st =
     (case ClassMap_clear_loop [0 ..< unat (allocated (fst st))] (entries (fst st), snd st) of
        None \<Rightarrow> None
      | Some (base, rc) \<Rightarrow> Some ((fst st)\<lparr>entries := base\<rparr>, rc))"

text \<open>
  The \<open>for\<close> loop of \<open>ClassMap_traverse\<close>. The visitor takes the object and the caller's
  \<open>arg\<close> (its state) and gives its return value and the new state. \<open>Py_VISIT( p )\<close> calls it
  on a non-null \<open>p\<close> and returns from the function when the visitor's value is not 0.
\<close>

fun ClassMap_traverse_loop ::
  "ClassMapEntry list \<Rightarrow> (pyobject \<Rightarrow> 's \<Rightarrow> int \<times> 's) \<Rightarrow> nat list \<Rightarrow> 's \<Rightarrow> (int \<times> 's) option" where
  "ClassMap_traverse_loop base visit [] arg = Some (0, arg)"
| "ClassMap_traverse_loop base visit (i # rest) arg =
     (if i < length base then
        (let entry = base ! i in
         case name entry of
           None \<Rightarrow> ClassMap_traverse_loop base visit rest arg
         | Some k \<Rightarrow>
             (case visit (PyString k) arg of
                (vret, arg1) \<Rightarrow>
                  if vret \<noteq> 0 then Some (vret, arg1)
                  else (case member entry of
                          None \<Rightarrow> ClassMap_traverse_loop base visit rest arg1
                        | Some m \<Rightarrow>
                            (case visit (Member m) arg1 of
                               (vret2, arg2) \<Rightarrow>
                                 if vret2 \<noteq> 0 then Some (vret2, arg2)
                                 else ClassMap_traverse_loop base visit rest arg2))))
      else None)"

definition ClassMap_traverse ::
  "ClassMap \<Rightarrow> (pyobject \<Rightarrow> 's \<Rightarrow> int \<times> 's) \<Rightarrow> 's \<Rightarrow> (int \<times> 's) option" where
  "ClassMap_traverse self visit arg =
     ClassMap_traverse_loop (entries self) visit [0 ..< unat (allocated self)] arg"

text \<open>
  \<open>ClassMap_dealloc\<close>: clear, then free the array and the object; what is left is the
  reference counts.
\<close>

definition ClassMap_dealloc :: "ClassMap \<times> refcounts \<Rightarrow> refcounts option" where
  "ClassMap_dealloc st = map_option snd (ClassMap_clear st)"

section \<open>ClassMap\_new, the whole function\<close>

text \<open>
  \<open>members\<close> is the parsed argument. \<open>type_alloc_ok\<close> and \<open>malloc_ok\<close> say whether
  \<open>PyType_GenericNew\<close> and \<open>PyObject_Malloc\<close> succeed. When the function returns on a type
  error, the destructor of \<open>self_ptr\<close> drops the only reference to the new object, which
  runs \<open>ClassMap_dealloc\<close> on the table built so far.
\<close>

definition ClassMap_new ::
  "(string \<Rightarrow> u32) \<Rightarrow> bool \<Rightarrow> bool \<Rightarrow> pyobject \<Rightarrow> refcounts
     \<Rightarrow> (error \<times> refcounts + ClassMap \<times> refcounts) option" where
  "ClassMap_new h type_alloc_ok malloc_ok members rc =
     (case members of
        PyDict d \<Rightarrow>
          if \<not> type_alloc_ok then Some (Inl (TypeAllocFail, rc))
          else
            (let alloc = planned_allocated (length d) in
             if \<not> malloc_ok then Some (Inl (NoMemory, rc))
             else
               (case ClassMap_new_loop h
                       (\<lparr>entries = replicate (unat alloc) zero_entry,
                         allocated = alloc, member_count = 0\<rparr>, rc) d of
                  None \<Rightarrow> None
                | Some (Inr st) \<Rightarrow> Some (Inr st)
                | Some (Inl (err, st)) \<Rightarrow>
                    (case ClassMap_dealloc st of
                       None \<Rightarrow> None
                     | Some rc' \<Rightarrow> Some (Inl (err, rc')))))
      | _ \<Rightarrow> Some (Inl (ExpectedTypeFail members ''dict'', rc)))"

section \<open>Notions used to state the properties\<close>

text \<open>
  One turn of the collision-resolution step shared by both loops, on the pair
  \<open>(hash, bucket)\<close>, and the state after \<open>n\<close> turns.
\<close>

definition probe_step :: "u32 \<Rightarrow> u32 \<times> u32 \<Rightarrow> u32 \<times> u32" where
  "probe_step msk s = (drop_bit 5 (fst s), (push_bit 2 (snd s) + snd s + fst s + 1) AND msk)"

definition probe_state :: "u32 \<Rightarrow> u32 \<times> u32 \<Rightarrow> nat \<Rightarrow> u32 \<times> u32" where
  "probe_state msk s n = (probe_step msk ^^ n) s"

text \<open>The \<open>n\<close>-th bucket examined for a hash: both loops start at \<open>hash & mask\<close>.\<close>

definition probe_sequence :: "u32 \<Rightarrow> u32 \<Rightarrow> nat \<Rightarrow> u32" where
  "probe_sequence msk hash n = snd (probe_state msk (hash, hash AND msk) n)"

text \<open>
  A table as \<open>ClassMap_new\<close> lays it out: \<open>allocated\<close> is a power of two (that fits 32
  bits) and the entry array has that many slots.
\<close>

definition ClassMap_wf :: "ClassMap \<Rightarrow> bool" where
  "ClassMap_wf cmap \<longleftrightarrow>
     (\<exists>k \<in> {0 ..< 32}. allocated cmap = 2 ^ k) \<and> length (entries cmap) = unat (allocated cmap)"

definition occupied :: "ClassMapEntry \<Rightarrow> bool" where
  "occupied e \<longleftrightarrow> name e \<noteq> None"

text \<open>What a loop can meet in the slot at bucket \<open>b\<close>.\<close>

definition free_slot :: "ClassMapEntry list \<Rightarrow> u32 \<Rightarrow> bool" where
  "free_slot base b \<longleftrightarrow> unat b < length base \<and> name (base ! unat b) = None"

definition in_use :: "ClassMapEntry list \<Rightarrow> u32 \<Rightarrow> bool" where
  "in_use base b \<longleftrightarrow> unat b < length base \<and> name (base ! unat b) \<noteq> None"

definition other_key :: "ClassMapEntry list \<Rightarrow> string \<Rightarrow> u32 \<Rightarrow> bool" where
  "other_key base nm b \<longleftrightarrow>
     unat b < length base \<and> (\<exists>k. name (base ! unat b) = Some k \<and> k \<noteq> nm)"

text \<open>
  The probe sequence of \<open>nm\<close> meets only other keys until it meets the entry \<open>e\<close>, which
  holds \<open>nm\<close>.
\<close>

definition probe_finds :: "ClassMapEntry list \<Rightarrow> u32 \<Rightarrow> string \<Rightarrow> u32 \<Rightarrow> ClassMapEntry \<Rightarrow> bool" where
  "probe_finds base msk nm hash e \<longleftrightarrow>
     (\<exists>n. (\<forall>j<n. other_key base nm (probe_sequence msk hash j))
        \<and> unat (probe_sequence msk hash n) < length base
        \<and> base ! unat (probe_sequence msk hash n) = e \<and> name e = Some nm)"

text \<open>
  A mapping from names to Member descriptors, in iteration order, the dict items it
  stands for, and the entry its \<open>i\<close>-th item is stored as.
\<close>

definition valid_items :: "(string \<times> nat) list \<Rightarrow> (pyobject \<times> pyobject) list" where
  "valid_items kvs = map (\<lambda>kv. (PyString (fst kv), Member (snd kv))) kvs"

definition entry_of :: "(string \<times> nat) list \<Rightarrow> nat \<Rightarrow> ClassMapEntry" where
  "entry_of kvs i = \<lparr>name = Some (fst (kvs ! i)), member = Some (snd (kvs ! i)), index = word_of_nat i\<rparr>"

definition built_from :: "(string \<Rightarrow> u32) \<Rightarrow> ClassMap \<Rightarrow> (string \<times> nat) list \<Rightarrow> bool" where
  "built_from h cmap kvs \<longleftrightarrow>
     member_count cmap = word_of_nat (length kvs)
     \<and> mset (filter occupied (entries cmap)) = mset (map (entry_of kvs) [0 ..< length kvs])
     \<and> (\<forall>i < length kvs.
           probe_finds (entries cmap) (allocated cmap - 1) (fst (kvs ! i)) (h (fst (kvs ! i)))
             (entry_of kvs i))"

text \<open>
  The state an insertion leaves when it stores at bucket \<open>b\<close>, and the run of the
  insertion loop that ends so: buckets in use, then a free one.
\<close>

definition ins_res :: "string \<Rightarrow> nat \<Rightarrow> u32 \<Rightarrow> ClassMap \<times> refcounts \<Rightarrow> ClassMap \<times> refcounts" where
  "ins_res nm mem b st =
     ((fst st)\<lparr>entries := (entries (fst st))
          [unat b := \<lparr>name = Some nm, member = Some mem, index = member_count (fst st)\<rparr>],
        member_count := member_count (fst st) + 1\<rparr>,
      Py_INCREF (Py_INCREF (snd st) (PyString nm)) (Member mem))"

definition ins_path ::
  "u32 \<Rightarrow> string \<Rightarrow> nat \<Rightarrow> u32 \<Rightarrow> u32 \<Rightarrow> ClassMap \<times> refcounts \<Rightarrow> ClassMap \<times> refcounts \<Rightarrow> bool" where
  "ins_path msk nm mem hash bucket st st' \<longleftrightarrow>
     (\<exists>n. (\<forall>j<n. in_use (entries (fst st)) (snd (probe_state msk (hash, bucket) j)))
        \<and> free_slot (entries (fst st)) (snd (probe_state msk (hash, bucket) n))
        \<and> st' = ins_res nm mem (snd (probe_state msk (hash, bucket) n)) st)"

text \<open>
  With the hash shifted down to 0 the step is \<open>x \<mapsto> (5 x + 1) mod 2 ^ k\<close>; \<open>geo n\<close> is
  \<open>1 + 5 + \<dots> + 5 ^ (n - 1)\<close>, the constant term of its \<open>n\<close>-th iterate.
\<close>

fun geo :: "nat \<Rightarrow> nat" where
  "geo 0 = 0"
| "geo (Suc n) = 5 * geo n + 1"

definition lcg :: "nat \<Rightarrow> nat \<Rightarrow> nat" where
  "lcg k x = (5 * x + 1) mod 2 ^ k"

text \<open>The table \<open>ClassMap_new\<close> starts its loop with (lines 116 to 119).\<close>

definition fresh_table :: "u32 \<Rightarrow> ClassMap" where
  "fresh_table alloc = \<lparr>entries = replicate (unat alloc) zero_entry, allocated = alloc, member_count = 0\<rparr>"

text \<open>
  A lookup result that left the outputs alone, unless some slot holds the name (in the
  argument order of the lookup loop).
\<close>

definition unwritten :: "ClassMapEntry list \<Rightarrow> u32 \<Rightarrow> string \<Rightarrow> u32 \<Rightarrow> u32 \<Rightarrow> nat option \<times> u32 \<Rightarrow> nat option \<times> u32 \<Rightarrow> bool" where
  "unwritten base msk nm hash bucket out r \<longleftrightarrow> ((\<forall>e \<in> set base. name e \<noteq> Some nm) \<longrightarrow> r = out)"

text \<open>Some slot is empty; some slot holds the name.\<close>

definition has_free_slot :: "ClassMap \<Rightarrow> bool" where
  "has_free_slot cmap \<longleftrightarrow> None \<in> set (map name (entries cmap))"

definition stores :: "ClassMap \<Rightarrow> string \<Rightarrow> bool" where
  "stores cmap nm \<longleftrightarrow> Some nm \<in> set (map name (entries cmap))"

text \<open>
  A small instance: a hash function under which all names collide, a mapping of three
  names, the table \<open>ClassMap_new\<close> builds for them, reference counts, and (below) a dict
  whose second key is not a string.
\<close>

definition example_hash :: "string \<Rightarrow> u32" where
  "example_hash s = 3"

definition example_mapping :: "(string \<times> nat) list" where
  "example_mapping = [(''a'', 1), (''b'', 2), (''c'', 3)]"

definition example_table :: ClassMap where
  "example_table =
     \<lparr>entries = [\<lparr>name = Some ''b'', member = Some 2, index = 1\<rparr>,
                 \<lparr>name = Some ''c'', member = Some 3, index = 2\<rparr>,
                 \<lparr>name = None, member = None, index = 0\<rparr>,
                 \<lparr>name = Some ''a'', member = Some 1, index = 0\<rparr>],
       allocated = 4, member_count = 3\<rparr>"

definition example_refcounts :: refcounts where
  "example_refcounts ob = 1"

text \<open>The capacity as the spec words it: rounding up twice.\<close>

definition capacity_plan :: "nat \<Rightarrow> nat" where
  "capacity_plan n = next_power_of_two ((max n 3 * 4 + 2) div 3)"

text \<open>The count and the capacity of the table in a result of the construction loop.\<close>

definition table_load ::
  "(error \<times> ClassMap \<times> refcounts + ClassMap \<times> refcounts) option \<Rightarrow> (u32 \<times> u32) option" where
  "table_load r = (case r of Some (Inr st) \<Rightarrow> Some (member_count (fst st), allocated (fst st)) | _ \<Rightarrow> None)"

text \<open>A mapping of \<open>2 ^ 30 + 3\<close> names: \<open>''''\<close>, \<open>''a''\<close>, \<open>''aa''\<close>, ...\<close>

definition huge_mapping :: "(string \<times> nat) list" where
  "huge_mapping = map (\<lambda>i. (replicate i CHR ''a'', i)) [0 ..< 2 ^ 30 + 3]"

text \<open>The references a slot holds, and those of the whole array in slot order.\<close>

definition entry_refs :: "ClassMapEntry \<Rightarrow> pyobject list" where
  "entry_refs e =
     (case name e of
        None \<Rightarrow> []
      | Some k \<Rightarrow> PyString k # (case member e of None \<Rightarrow> [] | Some m \<Rightarrow> [Member m]))"

definition stored_refs :: "ClassMapEntry list \<Rightarrow> pyobject list" where
  "stored_refs base = concat (map entry_refs base)"

text \<open>Calling a visitor on a list of objects in order, until it gives a value other than 0.\<close>

fun visit_all :: "(pyobject \<Rightarrow> 's \<Rightarrow> int \<times> 's) \<Rightarrow> pyobject list \<Rightarrow> 's \<Rightarrow> int \<times> 's" where
  "visit_all visit [] arg = (0, arg)"
| "visit_all visit (ob # obs) arg =
     (case visit ob arg of (vret, arg') \<Rightarrow> if vret \<noteq> 0 then (vret, arg') else visit_all visit obs arg')"

text \<open>A visitor that records what it is shown and goes on.\<close>

definition record_visit :: "pyobject \<Rightarrow> pyobject list \<Rightarrow> int \<times> pyobject list" where
  "record_visit ob seen = (0, seen @ [ob])"

text \<open>A slot after \<open>ClassMap_clear\<close>, and dropping one reference to each object of a list.\<close>

definition cleared_entry :: "ClassMapEntry \<Rightarrow> ClassMapEntry" where
  "cleared_entry e = (case name e of None \<Rightarrow> e | Some k \<Rightarrow> e\<lparr>name := None, member := None\<rparr>)"

definition release_all :: "pyobject list \<Rightarrow> refcounts \<Rightarrow> refcounts" where
  "release_all obs rc = fold (\<lambda>ob rc. Py_DECREF rc ob) obs rc"

text \<open>The type checks of the construction loop, and the error it returns for a bad item.\<close>

definition PyString_Check :: "pyobject \<Rightarrow> bool" where
  "PyString_Check ob = (case ob of PyString k \<Rightarrow> True | _ \<Rightarrow> False)"

definition Member_Check :: "pyobject \<Rightarrow> bool" where
  "Member_Check ob = (case ob of Member m \<Rightarrow> True | _ \<Rightarrow> False)"

definition type_error :: "pyobject \<Rightarrow> pyobject \<Rightarrow> error" where
  "type_error key val =
     (if PyString_Check key then ExpectedTypeFail val ''Member'' else ExpectedTypeFail key ''str'')"

text \<open>The huge mapping with a key that is not a string in sixth place.\<close>

definition huge_items_bad :: "(pyobject \<times> pyobject) list" where
  "huge_items_bad =
     valid_items (take 5 huge_mapping) @ (PyOther 0, Member 5) # valid_items (drop 6 huge_mapping)"

definition example_items_bad :: "(pyobject \<times> pyobject) list" where
  "example_items_bad = [(PyString ''a'', Member 1), (PyOther 7, Member 2), (PyString ''c'', Member 3)]"

text \<open>The references construction takes for a mapping, and taking one to each object of a list.\<close>

definition item_refs :: "(string \<times> nat) list \<Rightarrow> pyobject list" where
  "item_refs kvs = concat (map (\<lambda>kv. [PyString (fst kv), Member (snd kv)]) kvs)"

definition acquire_all :: "pyobject list \<Rightarrow> refcounts \<Rightarrow> refcounts" where
  "acquire_all obs rc = fold (\<lambda>ob rc. Py_INCREF rc ob) obs rc"

section \<open>The step \<open>x \<mapsto> 5 x + 1\<close> modulo a power of two\<close>

lemma geo_closed: "4 * geo n + 1 = 5 ^ n"
  by (induction n) auto

lemma geo_add: "geo (m + n) = 5 ^ m * geo n + geo m"
  by (induction m) (auto simp: algebra_simps)

lemma geo_even_iff: "even (geo n) \<longleftrightarrow> even n"
  by (induction n) auto

lemma five_pow_succ: "\<exists>q::nat. 5 ^ m + 1 = 2 * q \<and> odd q"
proof (induction m)
  case 0 show ?case by (rule exI[of _ 1]) simp
next
  case (Suc m)
  then obtain q :: nat where q: "5 ^ m + 1 = 2 * q" "odd q" by blast
  have "(5::nat) ^ Suc m + 1 = 2 * (5 * q - 2)" using q(1) by simp
  moreover have "odd (5 * q - 2)" using q(2) by (cases q) auto
  ultimately show ?case by blast
qed

lemma geo_double: "geo (2 * m) = geo m * (5 ^ m + 1)"
proof -
  have "geo (2 * m) = geo (m + m)" by (simp only: mult_2)
  then show ?thesis by (simp add: geo_add algebra_simps)
qed

lemma dvd_geo_iff: "2 ^ k dvd geo n \<longleftrightarrow> 2 ^ k dvd n"
proof (induction k arbitrary: n)
  case 0 show ?case by simp
next
  case (Suc k)
  show ?case
  proof (cases "even n")
    case False
    then have "odd (geo n)" by (simp add: geo_even_iff)
    then have "\<not> 2 ^ Suc k dvd geo n" by (auto dest: dvd_mult_left)
    moreover from False have "\<not> 2 ^ Suc k dvd n" by (auto dest: dvd_mult_left)
    ultimately show ?thesis by simp
  next
    case True
    then obtain m where m: "n = 2 * m" by (auto elim: evenE)
    obtain q :: nat where q: "5 ^ m + 1 = 2 * q" "odd q" using five_pow_succ by blast
    have cop: "coprime ((2::nat) ^ k) q" using q(2) by simp
    have "geo n = geo m * (5 ^ m + 1)" by (simp only: m geo_double)
    also have "\<dots> = geo m * (2 * q)" by (simp only: q(1))
    finally have "geo n = 2 * (geo m * q)" by simp
    then have "2 ^ Suc k dvd geo n \<longleftrightarrow> 2 * 2 ^ k dvd 2 * (geo m * q)"
      by simp
    also have "\<dots> \<longleftrightarrow> 2 ^ k dvd geo m * q" by simp
    also have "\<dots> \<longleftrightarrow> 2 ^ k dvd geo m" using cop by (simp add: coprime_dvd_mult_left_iff)
    also have "\<dots> \<longleftrightarrow> 2 ^ k dvd m" by (rule Suc.IH)
    also have "\<dots> \<longleftrightarrow> 2 ^ Suc k dvd n" by (simp add: m)
    finally show ?thesis .
  qed
qed

lemma lcg_iter: "(lcg k ^^ n) x mod 2 ^ k = (5 ^ n * x + geo n) mod 2 ^ k"
proof (induction n)
  case 0 show ?case by simp
next
  case (Suc n)
  have "(lcg k ^^ Suc n) x mod 2 ^ k = (5 * (lcg k ^^ n) x + 1) mod 2 ^ k"
    by (simp add: lcg_def)
  also have "\<dots> = (5 * (5 ^ n * x + geo n) + 1) mod 2 ^ k"
    by (intro mod_add_cong mod_mult_cong refl Suc.IH)
  finally show ?case by (simp add: algebra_simps)
qed

lemma mod_add_eq_self_dvd:
  fixes a c m :: nat
  assumes "(a + c) mod m = a mod m"
  shows "m dvd c"
proof -
  have "int m dvd int (a + c) - int a"
    using assms by (metis mod_eq_dvd_iff of_nat_mod)
  then show ?thesis by simp
qed

lemma lcg_distinct:
  assumes "(lcg k ^^ (i + d)) x mod 2 ^ k = (lcg k ^^ i) x mod 2 ^ k"
  shows "2 ^ k dvd d"
proof -
  have e: "5 ^ (i + d) * x + geo (i + d) = (5 ^ i * x + geo i) + 5 ^ i * (geo d * (4 * x + 1))"
  proof -
    have "5 ^ (i + d) * x = 5 ^ i * ((4 * geo d + 1) * x)"
      by (simp only: geo_closed power_add mult.assoc)
    moreover have "geo (i + d) = 5 ^ i * geo d + geo i" by (rule geo_add)
    ultimately show ?thesis by (simp add: algebra_simps)
  qed
  from assms have "((5 ^ i * x + geo i) + 5 ^ i * (geo d * (4 * x + 1))) mod 2 ^ k
      = (5 ^ i * x + geo i) mod 2 ^ k"
    by (simp only: lcg_iter e)
  then have "2 ^ k dvd 5 ^ i * (geo d * (4 * x + 1))"
    by (rule mod_add_eq_self_dvd)
  moreover have "coprime ((2::nat) ^ k) (5 ^ i)" by simp
  moreover have "coprime ((2::nat) ^ k) (4 * x + 1)" by simp
  ultimately have "2 ^ k dvd geo d"
    by (simp only: coprime_dvd_mult_left_iff coprime_dvd_mult_right_iff)
  then show ?thesis by (simp add: dvd_geo_iff)
qed

lemma lcg_hits_all:
  assumes "s < 2 ^ k"
  shows "\<exists>n < 2 ^ k. (lcg k ^^ n) x mod 2 ^ k = s"
proof -
  let ?f = "\<lambda>n. (lcg k ^^ n) x mod 2 ^ k"
  have inj: "inj_on ?f {..<2 ^ k}"
  proof (rule inj_onI)
    fix a b assume a: "a \<in> {..<(2::nat) ^ k}" and b: "b \<in> {..<(2::nat) ^ k}" and eq: "?f a = ?f b"
    { fix i j :: nat assume ij: "i \<le> j" "j < 2 ^ k" and e: "?f j = ?f i"
      then have "2 ^ k dvd (j - i)" using lcg_distinct[where k=k and i=i and d="j - i" and x=x] by simp
      moreover have "j - i < 2 ^ k" using ij by simp
      ultimately have "j = i" using ij(1) by (auto dest: dvd_imp_le) }
    note * = this
    show "a = b"
    proof (cases "a \<le> b")
      case True then show ?thesis using *[of a b] b eq by simp
    next
      case False then show ?thesis using *[of b a] a eq by simp
    qed
  qed
  have "?f ` {..<2 ^ k} \<subseteq> {..<2 ^ k}" by auto
  moreover have "card (?f ` {..<2 ^ k}) = card {..<(2::nat) ^ k}" using inj by (rule card_image)
  ultimately have "?f ` {..<2 ^ k} = {..<2 ^ k}" by (intro card_subset_eq) auto
  with assms have "s \<in> ?f ` {..<2 ^ k}" by simp
  then show ?thesis by auto
qed

section \<open>The probe sequence\<close>

lemma probe_state_0: "probe_state msk s 0 = s"
  by (simp add: probe_state_def)

lemma probe_state_Suc: "probe_state msk s (Suc n) = probe_step msk (probe_state msk s n)"
  by (simp add: probe_state_def)

lemma probe_state_add: "probe_state msk s (m + n) = probe_state msk (probe_state msk s m) n"
  unfolding probe_state_def by (subst add.commute) (simp add: funpow_add)

lemma fst_probe_state: "fst (probe_state msk s n) = drop_bit (5 * n) (fst s)"
  by (induction n) (simp_all add: probe_state_0 probe_state_Suc probe_step_def drop_bit_drop_bit)

lemma fst_probe_state_zero: "7 \<le> n \<Longrightarrow> fst (probe_state msk s n) = 0"
  by (simp add: fst_probe_state drop_bit_word_beyond)

lemma pow2_minus1_mask: "(2 :: u32) ^ k - 1 = mask k"
  by (simp add: mask_eq_decr_exp)

lemma unat_and_mask_mod: "unat ((w :: u32) AND mask k) = unat w mod 2 ^ k"
proof -
  have "unat (w AND mask k) = unat (take_bit k w)" by (simp only: take_bit_eq_mask)
  also have "\<dots> = take_bit k (unat w)" by (rule unsigned_take_bit_eq)
  also have "\<dots> = unat w mod 2 ^ k" by (rule take_bit_eq_mod)
  finally show ?thesis .
qed

lemma len32: "LENGTH(32) = 32"
  by simp

lemma lcg_cong: "y mod 2 ^ k = z mod 2 ^ k \<Longrightarrow> lcg k y = lcg k z"
  unfolding lcg_def by (intro mod_add_cong mod_mult_cong refl)

lemma unat_step_general:
  assumes "k \<le> 32"
  shows "unat (snd (probe_step (mask k) (hash, b))) = (5 * unat b + unat hash + 1) mod 2 ^ k"
proof -
  have w: "push_bit 2 b + b + hash + 1 = (word_of_nat (5 * unat b + unat hash + 1) :: u32)"
    by (simp add: push_bit_eq_mult)
  have d: "(2::nat) ^ k dvd 2 ^ 32" using assms by (rule le_imp_power_dvd)
  have "unat (snd (probe_step (mask k) (hash, b)))
      = unat (word_of_nat (5 * unat b + unat hash + 1) :: u32) mod 2 ^ k"
    by (simp only: probe_step_def snd_conv fst_conv w unat_and_mask_mod)
  also have "\<dots> = ((5 * unat b + unat hash + 1) mod 2 ^ 32) mod 2 ^ k"
    by (simp only: unat_of_nat len32)
  also have "\<dots> = (5 * unat b + unat hash + 1) mod 2 ^ k"
    using d by (rule mod_mod_cancel)
  finally show ?thesis .
qed

lemma unat_step_zero_hash:
  assumes "k \<le> 32"
  shows "unat (snd (probe_step (mask k) (0, b))) = lcg k (unat b)"
  using unat_step_general[OF assms, of 0 b] by (simp add: lcg_def)

lemma probe_state_zero_hash:
  assumes "k \<le> 32"
  shows "probe_state (mask k) (0, b) n = (0, snd (probe_state (mask k) (0, b) n))
    \<and> unat (snd (probe_state (mask k) (0, b) n)) mod 2 ^ k = (lcg k ^^ n) (unat b) mod 2 ^ k"
proof (induction n)
  case 0 show ?case by (simp add: probe_state_0)
next
  case (Suc n)
  let ?s = "probe_state (mask k) (0, b) n"
  from Suc have s: "?s = (0, snd ?s)" and u: "unat (snd ?s) mod 2 ^ k = (lcg k ^^ n) (unat b) mod 2 ^ k"
    by simp_all
  have f: "fst (probe_step (mask k) ?s) = 0" using s by (simp add: probe_step_def) (metis drop_bit_of_0 fst_conv)
  have "unat (snd (probe_step (mask k) ?s)) = lcg k (unat (snd ?s))"
    using unat_step_zero_hash[OF assms, of "snd ?s"] s by simp
  also have "\<dots> = lcg k ((lcg k ^^ n) (unat b))" using u by (rule lcg_cong)
  finally have "unat (snd (probe_step (mask k) ?s)) mod 2 ^ k = (lcg k ^^ Suc n) (unat b) mod 2 ^ k"
    by simp
  with f show ?case by (simp add: probe_state_Suc prod_eq_iff)
qed

lemma snd_probe_step_less:
  assumes "k \<le> 32"
  shows "unat (snd (probe_step (mask k) s)) < 2 ^ k"
  using unat_step_general[OF assms, of "fst s" "snd s"] by simp

text \<open>Every slot number is reached, from any state of the loop.\<close>

lemma probe_reaches_every_slot:
  assumes k: "k \<le> 32" and t: "t < 2 ^ k"
  shows "\<exists>n. unat (snd (probe_state (mask k) s n)) = t"
proof -
  let ?s7 = "probe_state (mask k) s 7"
  have h0: "fst ?s7 = 0" by (rule fst_probe_state_zero) simp
  then have s7: "?s7 = (0, snd ?s7)" by (simp add: prod_eq_iff)
  obtain n where n: "(lcg k ^^ n) (unat (snd ?s7)) mod 2 ^ k = t"
    using lcg_hits_all[OF t] by blast
  have "unat (snd (probe_state (mask k) (0, snd ?s7) n)) mod 2 ^ k = t"
    using probe_state_zero_hash[OF k, of "snd ?s7" n] n by simp
  moreover have "unat (snd (probe_state (mask k) (0, snd ?s7) n)) < 2 ^ k"
  proof (cases n)
    case 0
    have "?s7 = probe_step (mask k) (probe_state (mask k) s 6)"
      using probe_state_Suc[of "mask k" s 6] by simp
    then show ?thesis using snd_probe_step_less[OF k, of "probe_state (mask k) s 6"] 0
      by (simp add: probe_state_0)
  next
    case (Suc m)
    then show ?thesis using snd_probe_step_less[OF k] by (simp add: probe_state_Suc)
  qed
  ultimately have "unat (snd (probe_state (mask k) (0, snd ?s7) n)) = t" by simp
  then have "unat (snd (probe_state (mask k) s (7 + n))) = t"
    using s7 by (simp add: probe_state_add)
  then show ?thesis by blast
qed

section \<open>The two loops along the probe sequence\<close>

lemma probe_state_Suc_right: "probe_state msk s (Suc n) = probe_state msk (probe_step msk s) n"
  by (simp add: probe_state_def funpow_swap1)

lemma lookup_loop_empty:
  "free_slot base bucket \<Longrightarrow> ClassMap_LookupMember_loop base msk nm hash bucket out = Some out"
  by (subst ClassMap_LookupMember_loop.simps) (simp add: free_slot_def Let_def)

lemma lookup_loop_match:
  "unat bucket < length base \<Longrightarrow> name (base ! unat bucket) = Some nm \<Longrightarrow>
   ClassMap_LookupMember_loop base msk nm hash bucket out
     = Some (member (base ! unat bucket), index (base ! unat bucket))"
  by (subst ClassMap_LookupMember_loop.simps) (simp add: pystr_equal_def Let_def)

lemma lookup_loop_skip:
  "other_key base nm bucket \<Longrightarrow>
   ClassMap_LookupMember_loop base msk nm hash bucket out
     = ClassMap_LookupMember_loop base msk nm (fst (probe_step msk (hash, bucket)))
         (snd (probe_step msk (hash, bucket))) out"
  by (subst ClassMap_LookupMember_loop.simps)
     (auto simp: other_key_def pystr_equal_def probe_step_def Let_def)

lemma lookup_loop_run:
  "(\<forall>j<n. other_key base nm (snd (probe_state msk (hash, bucket) j))) \<Longrightarrow>
   ClassMap_LookupMember_loop base msk nm hash bucket out
     = ClassMap_LookupMember_loop base msk nm (fst (probe_state msk (hash, bucket) n))
         (snd (probe_state msk (hash, bucket) n)) out"
proof (induction n)
  case 0 show ?case by (simp add: probe_state_0)
next
  case (Suc n)
  let ?s = "probe_state msk (hash, bucket) n"
  have "other_key base nm (snd ?s)" using Suc.prems by simp
  from lookup_loop_skip[OF this, of msk "fst ?s" out] Suc show ?case
    by (simp add: probe_state_Suc)
qed

lemma insert_loop_empty:
  "free_slot (entries (fst st)) bucket \<Longrightarrow>
   insert_member_loop msk nm mem hash bucket st
     = Some ((fst st)\<lparr>entries := (entries (fst st))
                 [unat bucket := \<lparr>name = Some nm, member = Some mem, index = member_count (fst st)\<rparr>],
               member_count := member_count (fst st) + 1\<rparr>,
             Py_INCREF (Py_INCREF (snd st) (PyString nm)) (Member mem))"
  by (subst insert_member_loop.simps) (simp add: free_slot_def)

lemma insert_loop_skip:
  "in_use (entries (fst st)) bucket \<Longrightarrow>
   insert_member_loop msk nm mem hash bucket st
     = insert_member_loop msk nm mem (fst (probe_step msk (hash, bucket)))
         (snd (probe_step msk (hash, bucket))) st"
  by (subst insert_member_loop.simps) (auto simp: in_use_def probe_step_def)

lemma insert_loop_run:
  "(\<forall>j<n. in_use (entries (fst st)) (snd (probe_state msk (hash, bucket) j))) \<Longrightarrow>
   insert_member_loop msk nm mem hash bucket st
     = insert_member_loop msk nm mem (fst (probe_state msk (hash, bucket) n))
         (snd (probe_state msk (hash, bucket) n)) st"
proof (induction n)
  case 0 show ?case by (simp add: probe_state_0)
next
  case (Suc n)
  let ?s = "probe_state msk (hash, bucket) n"
  have "in_use (entries (fst st)) (snd ?s)" using Suc.prems by simp
  from insert_loop_skip[OF this, of msk nm mem "fst ?s"] Suc show ?case
    by (simp add: probe_state_Suc)
qed

text \<open>What a returning insertion loop has done.\<close>

lemma ins_path_0: "free_slot (entries (fst st)) bucket \<Longrightarrow> ins_path msk nm mem hash bucket st (ins_res nm mem bucket st)"
  unfolding ins_path_def by (intro exI[of _ 0]) (simp add: probe_state_0)

lemma ins_path_Suc:
  assumes u: "in_use (entries (fst st)) bucket"
    and p: "ins_path msk nm mem (drop_bit 5 hash) ((push_bit 2 bucket + bucket + hash + 1) AND msk) st st'"
  shows "ins_path msk nm mem hash bucket st st'"
proof -
  have ps: "(drop_bit 5 hash, (push_bit 2 bucket + bucket + hash + 1) AND msk) = probe_step msk (hash, bucket)"
    by (simp add: probe_step_def)
  from p obtain n where
    n: "\<forall>j<n. in_use (entries (fst st)) (snd (probe_state msk (probe_step msk (hash, bucket)) j))"
       "free_slot (entries (fst st)) (snd (probe_state msk (probe_step msk (hash, bucket)) n))"
       "st' = ins_res nm mem (snd (probe_state msk (probe_step msk (hash, bucket)) n)) st"
    unfolding ins_path_def ps by blast
  have "\<forall>j<Suc n. in_use (entries (fst st)) (snd (probe_state msk (hash, bucket) j))"
  proof (intro allI impI)
    fix j assume "j < Suc n"
    then show "in_use (entries (fst st)) (snd (probe_state msk (hash, bucket) j))"
      using u n(1) by (cases j) (simp_all add: probe_state_0 probe_state_Suc_right)
  qed
  with n(2,3) show ?thesis
    unfolding ins_path_def by (intro exI[of _ "Suc n"]) (simp add: probe_state_Suc_right)
qed

lemma insert_loop_SomeD:
  assumes "insert_member_loop msk nm mem hash bucket st = Some st'"
  shows "ins_path msk nm mem hash bucket st st'"
proof (rule insert_member_loop.raw_induct[where P = ins_path, OF _ assms])
  fix loop msk nm mem hash bucket st st'
  assume IH: "\<And>msk nm mem hash bucket st st'. loop msk nm mem hash bucket st = Some st' \<Longrightarrow> ins_path msk nm mem hash bucket st st'"
    and body: "(if unat bucket < length (entries (fst st))
      then case name (entries (fst st) ! unat bucket) of
           None \<Rightarrow>
             Some
              (fst st
               \<lparr>entries :=
                  (entries (fst st))
                  [unat bucket :=
                     \<lparr>name = Some nm, member = Some mem,
                        index = member_count (fst st)\<rparr>],
                  member_count := member_count (fst st) + 1\<rparr>,
               Py_INCREF (Py_INCREF (snd st) (PyString nm)) (Member mem))
           | Some k \<Rightarrow>
               loop msk nm mem (drop_bit 5 hash)
                (push_bit 2 bucket + bucket + hash + 1 AND msk) st
      else None) = Some st'"
  have rng: "unat bucket < length (entries (fst st))"
    using body by (simp split: if_splits)
  show "ins_path msk nm mem hash bucket st st'"
  proof (cases "name (entries (fst st) ! unat bucket)")
    case None
    with rng body have "st' = ins_res nm mem bucket st" by (simp add: ins_res_def)
    moreover from None rng have "free_slot (entries (fst st)) bucket" by (simp add: free_slot_def)
    ultimately show ?thesis using ins_path_0 by simp
  next
    case (Some k)
    with rng body have "loop msk nm mem (drop_bit 5 hash) (push_bit 2 bucket + bucket + hash + 1 AND msk) st = Some st'"
      by simp
    from IH[OF this] have "ins_path msk nm mem (drop_bit 5 hash) (push_bit 2 bucket + bucket + hash + 1 AND msk) st st'" .
    moreover from Some rng have "in_use (entries (fst st)) bucket" by (simp add: in_use_def)
    ultimately show ?thesis by (rule ins_path_Suc[rotated])
  qed
qed

section \<open>What construction maintains\<close>

lemma insert_member_SomeD:
  "insert_member h st nm mem = Some st' \<Longrightarrow>
   ins_path (allocated (fst st) - 1) nm mem (h nm) (h nm AND (allocated (fst st) - 1)) st st'"
  unfolding insert_member_def Let_def by (rule insert_loop_SomeD)

lemma ClassMap_LookupMember_probe_finds:
  assumes "probe_finds (entries cmap) (allocated cmap - 1) nm (h nm) e"
  shows "ClassMap_LookupMember h cmap nm out = Some (member e, index e)"
proof -
  let ?msk = "allocated cmap - 1"
  from assms obtain n where
    n: "\<forall>j<n. other_key (entries cmap) nm (probe_sequence ?msk (h nm) j)"
       "unat (probe_sequence ?msk (h nm) n) < length (entries cmap)"
       "entries cmap ! unat (probe_sequence ?msk (h nm) n) = e" "name e = Some nm"
    unfolding probe_finds_def by blast
  let ?s = "probe_state ?msk (h nm, h nm AND ?msk) n"
  have "ClassMap_LookupMember h cmap nm out
      = ClassMap_LookupMember_loop (entries cmap) ?msk nm (fst ?s) (snd ?s) out"
    unfolding ClassMap_LookupMember_def Let_def
    using n(1) by (intro lookup_loop_run) (simp add: probe_sequence_def)
  also have "\<dots> = Some (member e, index e)"
    using lookup_loop_match[of "snd ?s" "entries cmap" nm ?msk "fst ?s" out] n(2,3,4)
    by (simp add: probe_sequence_def)
  finally show ?thesis .
qed

lemma other_key_update:
  "other_key base nm b \<Longrightarrow> s < length base \<Longrightarrow> name (base ! s) = None \<Longrightarrow>
   other_key (base[s := e]) nm b"
  by (auto simp: other_key_def nth_list_update)

lemma probe_finds_update:
  assumes "probe_finds base msk nm hash e" "s < length base" "name (base ! s) = None"
  shows "probe_finds (base[s := e']) msk nm hash e"
proof -
  from assms(1) obtain n where
    n: "\<forall>j<n. other_key base nm (probe_sequence msk hash j)"
       "unat (probe_sequence msk hash n) < length base"
       "base ! unat (probe_sequence msk hash n) = e" "name e = Some nm"
    unfolding probe_finds_def by blast
  have "unat (probe_sequence msk hash n) \<noteq> s" using n(3,4) assms(3) by auto
  then have "base[s := e'] ! unat (probe_sequence msk hash n) = e" using n(3) by simp
  moreover have "\<forall>j<n. other_key (base[s := e']) nm (probe_sequence msk hash j)"
    using n(1) assms(2,3) by (auto intro: other_key_update)
  ultimately show ?thesis unfolding probe_finds_def using n(2,4)
    by (intro exI[of _ n]) simp
qed

lemma probe_finds_new:
  assumes p: "ins_path msk nm mem hash (hash AND msk) st st'"
    and fresh: "\<forall>e \<in> set (entries (fst st)). name e \<noteq> Some nm"
  shows "probe_finds (entries (fst st')) msk nm hash
           \<lparr>name = Some nm, member = Some mem, index = member_count (fst st)\<rparr>"
proof -
  let ?base = "entries (fst st)"
  let ?new = "\<lparr>name = Some nm, member = Some mem, index = member_count (fst st)\<rparr>"
  from p obtain n where
    n: "\<forall>j<n. in_use ?base (probe_sequence msk hash j)"
       "free_slot ?base (probe_sequence msk hash n)"
       "st' = ins_res nm mem (probe_sequence msk hash n) st"
    unfolding ins_path_def probe_sequence_def by blast
  let ?b = "probe_sequence msk hash n"
  have b: "unat ?b < length ?base" "name (?base ! unat ?b) = None"
    using n(2) by (simp_all add: free_slot_def)
  have e': "entries (fst st') = ?base[unat ?b := ?new]" by (simp add: n(3) ins_res_def)
  have "\<forall>j<n. other_key ?base nm (probe_sequence msk hash j)"
  proof (intro allI impI)
    fix j assume "j < n"
    with n(1) have u: "in_use ?base (probe_sequence msk hash j)" by simp
    then have "?base ! unat (probe_sequence msk hash j) \<in> set ?base" by (simp add: in_use_def)
    with fresh have "name (?base ! unat (probe_sequence msk hash j)) \<noteq> Some nm" by blast
    with u show "other_key ?base nm (probe_sequence msk hash j)"
      by (auto simp: in_use_def other_key_def)
  qed
  then have "\<forall>j<n. other_key (?base[unat ?b := ?new]) nm (probe_sequence msk hash j)"
    using b by (auto intro: other_key_update)
  then show ?thesis unfolding probe_finds_def e' using b(1)
    by (intro exI[of _ n]) simp
qed

lemma mset_filter_update:
  "s < length es \<Longrightarrow> \<not> P (es ! s) \<Longrightarrow> P e \<Longrightarrow>
   mset (filter P (es[s := e])) = add_mset e (mset (filter P es))"
proof (induction es arbitrary: s)
  case Nil then show ?case by simp
next
  case (Cons x es)
  then show ?case by (cases s) auto
qed

lemma entry_of_append: "i < length kvs \<Longrightarrow> entry_of (kvs @ [x]) i = entry_of kvs i"
  by (simp add: entry_of_def nth_append)

lemma built_from_names:
  assumes "built_from h cmap kvs" "e \<in> set (entries cmap)" "name e = Some nm"
  shows "nm \<in> fst ` set kvs"
proof -
  from assms(2,3) have "e \<in> set (filter occupied (entries cmap))" by (simp add: occupied_def)
  then have "e \<in># mset (filter occupied (entries cmap))" by simp
  with assms(1) have "e \<in># mset (map (entry_of kvs) [0 ..< length kvs])"
    by (simp only: built_from_def)
  then obtain i where "i < length kvs" "e = entry_of kvs i" by auto
  with assms(3) show ?thesis by (auto simp: entry_of_def)
qed

lemma built_from_insert:
  assumes bf: "built_from h cmap kvs" and fresh: "k \<notin> fst ` set kvs"
    and ins: "insert_member h (cmap, rc) k m = Some st'"
  shows "built_from h (fst st') (kvs @ [(k, m)]) \<and> allocated (fst st') = allocated cmap
         \<and> length (entries (fst st')) = length (entries cmap)"
proof -
  let ?msk = "allocated cmap - 1"
  let ?new = "\<lparr>name = Some k, member = Some m, index = member_count cmap\<rparr>"
  have fr: "\<forall>e \<in> set (entries cmap). name e \<noteq> Some k"
    using built_from_names[OF bf] fresh by blast
  from insert_member_SomeD[OF ins]
  have p: "ins_path ?msk k m (h k) (h k AND ?msk) (cmap, rc) st'" by simp
  then obtain b where b: "free_slot (entries cmap) b" "st' = ins_res k m b (cmap, rc)"
    unfolding ins_path_def by auto
  have al: "allocated (fst st') = allocated cmap" and len: "length (entries (fst st')) = length (entries cmap)"
    and es: "entries (fst st') = (entries cmap)[unat b := ?new]"
    and mc: "member_count (fst st') = member_count cmap + 1"
    by (simp_all add: b(2) ins_res_def)
  have bb: "unat b < length (entries cmap)" "name (entries cmap ! unat b) = None"
    using b(1) by (simp_all add: free_slot_def)
  have new: "entry_of (kvs @ [(k, m)]) (length kvs) = ?new"
    using bf by (simp add: entry_of_def built_from_def)
  have 1: "member_count (fst st') = word_of_nat (length (kvs @ [(k, m)]))"
    using bf by (simp add: mc built_from_def)
  have "mset (filter occupied (entries (fst st'))) = add_mset ?new (mset (filter occupied (entries cmap)))"
    unfolding es using bb by (intro mset_filter_update) (simp_all add: occupied_def)
  also have "\<dots> = add_mset ?new (mset (map (entry_of kvs) [0 ..< length kvs]))"
    using bf by (simp only: built_from_def)
  also have "\<dots> = mset (map (entry_of (kvs @ [(k, m)])) [0 ..< length (kvs @ [(k, m)])])"
  proof -
    have "map (entry_of (kvs @ [(k, m)])) [0 ..< length kvs] = map (entry_of kvs) [0 ..< length kvs]"
      by (rule map_cong) (simp_all add: entry_of_append)
    then have "map (entry_of (kvs @ [(k, m)])) [0 ..< length (kvs @ [(k, m)])]
        = map (entry_of kvs) [0 ..< length kvs] @ [?new]"
      by (simp add: new)
    then show ?thesis by (simp only: mset_append mset.simps) simp
  qed
  finally have 2: "mset (filter occupied (entries (fst st')))
      = mset (map (entry_of (kvs @ [(k, m)])) [0 ..< length (kvs @ [(k, m)])])" .
  have 3: "probe_finds (entries (fst st')) (allocated (fst st') - 1) (fst ((kvs @ [(k, m)]) ! i))
             (h (fst ((kvs @ [(k, m)]) ! i))) (entry_of (kvs @ [(k, m)]) i)"
    if i: "i < length (kvs @ [(k, m)])" for i
  proof (cases "i < length kvs")
    case True
    with bf have "probe_finds (entries cmap) ?msk (fst (kvs ! i)) (h (fst (kvs ! i))) (entry_of kvs i)"
      by (simp add: built_from_def)
    from probe_finds_update[OF this bb] True show ?thesis
      by (simp add: es al entry_of_append nth_append)
  next
    case False
    with i have "i = length kvs" by simp
    with probe_finds_new[OF p] fr show ?thesis
      by (simp add: al new)
  qed
  from 1 2 3 al len show ?thesis unfolding built_from_def by blast
qed

lemma ClassMap_new_loop_append:
  "ClassMap_new_loop h st (xs @ ys)
     = (case ClassMap_new_loop h st xs of
          None \<Rightarrow> None
        | Some (Inl e) \<Rightarrow> Some (Inl e)
        | Some (Inr st') \<Rightarrow> ClassMap_new_loop h st' ys)"
proof (induction xs arbitrary: st)
  case Nil show ?case by simp
next
  case (Cons x xs)
  obtain key val where x: "x = (key, val)" by (cases x)
  show ?case unfolding x
    by (cases key; cases val) (simp_all add: Cons.IH split: option.splits)
qed

lemma ClassMap_new_loop_valid_snoc:
  "ClassMap_new_loop h st (valid_items (kvs @ [(k, m)]))
     = (case ClassMap_new_loop h st (valid_items kvs) of
          None \<Rightarrow> None
        | Some (Inl e) \<Rightarrow> Some (Inl e)
        | Some (Inr st') \<Rightarrow> map_option Inr (insert_member h st' k m))"
proof -
  have "valid_items (kvs @ [(k, m)]) = valid_items kvs @ [(PyString k, Member m)]"
    by (simp add: valid_items_def)
  then show ?thesis
    by (simp add: ClassMap_new_loop_append split: option.splits sum.splits)
qed

lemma ClassMap_new_loop_valid_not_Inl:
  "ClassMap_new_loop h st (valid_items kvs) \<noteq> Some (Inl e)"
proof (induction kvs arbitrary: st)
  case Nil show ?case by (simp add: valid_items_def)
next
  case (Cons x kvs)
  have "valid_items (x # kvs) = (PyString (fst x), Member (snd x)) # valid_items kvs"
    by (simp add: valid_items_def)
  then show ?case using Cons.IH by (simp split: option.splits)
qed

lemma ClassMap_new_loop_built:
  assumes "distinct (map fst kvs)" "built_from h cmap0 []"
    and "ClassMap_new_loop h (cmap0, rc) (valid_items kvs) = Some (Inr st)"
  shows "built_from h (fst st) kvs \<and> allocated (fst st) = allocated cmap0
         \<and> length (entries (fst st)) = length (entries cmap0)"
  using assms
proof (induction kvs arbitrary: st rule: rev_induct)
  case Nil
  then show ?case by (auto simp: valid_items_def)
next
  case (snoc x kvs)
  obtain k m where x: "x = (k, m)" by (cases x)
  from snoc.prems(3) obtain st1 where
    1: "ClassMap_new_loop h (cmap0, rc) (valid_items kvs) = Some (Inr st1)"
    and 2: "insert_member h st1 k m = Some st"
    unfolding x ClassMap_new_loop_valid_snoc
    by (auto split: option.splits sum.splits)
  from snoc.prems(1) have d: "distinct (map fst kvs)" and f: "k \<notin> fst ` set kvs"
    by (simp_all add: x)
  from snoc.IH[OF d snoc.prems(2) 1]
  have ih: "built_from h (fst st1) kvs" "allocated (fst st1) = allocated cmap0"
    "length (entries (fst st1)) = length (entries cmap0)" by simp_all
  from 2 have "insert_member h (fst st1, snd st1) k m = Some st" by simp
  from built_from_insert[OF ih(1) f this] ih(2,3) show ?case by (simp add: x)
qed

lemma bucket_in_range:
  assumes "k \<le> 32"
  shows "unat (snd (probe_state (mask k) (hash, hash AND mask k) n)) < 2 ^ k"
proof (cases n)
  case 0
  then show ?thesis by (simp add: probe_state_0 unat_and_mask_mod)
next
  case (Suc m)
  then show ?thesis using snd_probe_step_less[OF assms] by (simp add: probe_state_Suc)
qed

lemma unat_pow2: "k < 32 \<Longrightarrow> unat ((2::u32) ^ k) = 2 ^ k"
proof -
  assume k: "k < 32"
  have "unat ((2::u32) ^ k) = unat (word_of_nat (2 ^ k) :: u32)" by simp
  also have "\<dots> = 2 ^ k mod 2 ^ 32" by (simp only: unat_of_nat len32)
  also have "\<dots> = 2 ^ k"
  proof (rule mod_less)
    show "(2::nat) ^ k < 2 ^ 32" using k by (rule power_strict_increasing) simp
  qed
  finally show ?thesis .
qed

lemma ClassMap_wf_D:
  assumes "ClassMap_wf cmap"
  obtains k where "k < 32" "allocated cmap = 2 ^ k" "allocated cmap - 1 = mask k"
    "length (entries cmap) = 2 ^ k"
proof -
  from assms obtain k where k: "k < 32" "allocated cmap = 2 ^ k"
    and l: "length (entries cmap) = unat (allocated cmap)"
    unfolding ClassMap_wf_def by auto
  have "unat ((2::u32) ^ k) = 2 ^ k" using k(1) by (rule unat_pow2)
  with k l that[of k] show thesis by (simp add: pow2_minus1_mask)
qed

lemma insert_member_terminates:
  assumes wf: "ClassMap_wf cmap"
    and fr: "\<exists>s < length (entries cmap). name (entries cmap ! s) = None"
  shows "\<exists>st'. insert_member h (cmap, rc) nm mem = Some st'"
proof -
  from wf obtain k where k: "k < 32" "allocated cmap - 1 = mask k" "length (entries cmap) = 2 ^ k"
    by (rule ClassMap_wf_D)
  let ?ps = "\<lambda>n. snd (probe_state (mask k) (h nm, h nm AND mask k) n)"
  from fr obtain s where s: "s < 2 ^ k" "name (entries cmap ! s) = None" using k(3) by auto
  from probe_reaches_every_slot[of k s "(h nm, h nm AND mask k)"] k(1) s(1)
  obtain n where "unat (?ps n) = s" by auto
  with s k(3) have ex: "free_slot (entries cmap) (?ps n)" by (simp add: free_slot_def)
  define n0 where "n0 = (LEAST n. free_slot (entries cmap) (?ps n))"
  have f0: "free_slot (entries cmap) (?ps n0)" unfolding n0_def using ex by (rule LeastI)
  have "\<forall>j<n0. in_use (entries cmap) (?ps j)"
  proof (intro allI impI)
    fix j assume "j < n0"
    then have "\<not> free_slot (entries cmap) (?ps j)" unfolding n0_def by (rule not_less_Least)
    moreover have "unat (?ps j) < length (entries cmap)"
      using bucket_in_range[of k "h nm" j] k(1,3) by simp
    ultimately show "in_use (entries cmap) (?ps j)" by (simp add: free_slot_def in_use_def)
  qed
  then have "insert_member_loop (mask k) nm mem (h nm) (h nm AND mask k) (cmap, rc)
      = insert_member_loop (mask k) nm mem (fst (probe_state (mask k) (h nm, h nm AND mask k) n0))
          (?ps n0) (cmap, rc)"
    by (intro insert_loop_run) simp
  also have "\<dots> = Some (ins_res nm mem (?ps n0) (cmap, rc))"
    using f0 by (simp add: insert_loop_empty ins_res_def)
  finally show ?thesis by (simp add: insert_member_def Let_def k(2))
qed

lemma built_from_free_slot:
  assumes "built_from h cmap kvs" "length kvs < length (entries cmap)"
  shows "\<exists>s < length (entries cmap). name (entries cmap ! s) = None"
proof -
  have "length (filter occupied (entries cmap)) = size (mset (filter occupied (entries cmap)))"
    by (rule size_mset[symmetric])
  also have "\<dots> = length kvs" using assms(1) by (simp only: built_from_def) simp
  finally have "filter occupied (entries cmap) \<noteq> entries cmap" using assms(2) by auto
  then obtain e where "e \<in> set (entries cmap)" "\<not> occupied e"
    by (auto simp: filter_id_conv)
  then show ?thesis by (auto simp: in_set_conv_nth occupied_def)
qed

lemma ClassMap_new_loop_total:
  assumes wf: "ClassMap_wf cmap0" and b0: "built_from h cmap0 []"
    and d: "distinct (map fst kvs)" and sz: "length kvs \<le> length (entries cmap0)"
  shows "\<exists>st. ClassMap_new_loop h (cmap0, rc) (valid_items kvs) = Some (Inr st)"
  using d sz
proof (induction kvs rule: rev_induct)
  case Nil
  show ?case by (simp add: valid_items_def)
next
  case (snoc x kvs)
  obtain k m where x: "x = (k, m)" by (cases x)
  from snoc.prems have d: "distinct (map fst kvs)" and l: "length kvs < length (entries cmap0)"
    by simp_all
  from snoc.IH[OF d] l obtain st1 where
    1: "ClassMap_new_loop h (cmap0, rc) (valid_items kvs) = Some (Inr st1)" by auto
  from ClassMap_new_loop_built[OF d b0 1]
  have bf: "built_from h (fst st1) kvs" and al: "allocated (fst st1) = allocated cmap0"
    and len: "length (entries (fst st1)) = length (entries cmap0)" by simp_all
  have wf1: "ClassMap_wf (fst st1)" using wf al len by (simp add: ClassMap_wf_def)
  from built_from_free_slot[OF bf] l len
  have "\<exists>s < length (entries (fst st1)). name (entries (fst st1) ! s) = None" by simp
  from insert_member_terminates[OF wf1 this, of h "snd st1" k m]
  obtain st2 where "insert_member h st1 k m = Some st2" by auto
  with 1 show ?case by (simp add: x ClassMap_new_loop_valid_snoc)
qed

section \<open>The planned capacity\<close>

lemma next_power_of_two_from_props:
  assumes "p = 2 ^ i" "i = 0 \<or> 2 ^ (i - 1) < n"
  shows "\<exists>k. next_power_of_two_from p n = 2 ^ k \<and> n \<le> 2 ^ k \<and> (k = 0 \<or> 2 ^ (k - 1) < n)"
  using assms
proof (induction p n arbitrary: i rule: next_power_of_two_from.induct)
  case (1 p n)
  show ?case
  proof (cases "n \<le> p \<or> p = 0")
    case True
    with 1(2) have "n \<le> p" by simp
    with 1(2,3) True show ?thesis
      by (subst next_power_of_two_from.simps) (auto intro: exI[of _ i])
  next
    case False
    then have np: "p < n" by simp
    have "\<exists>k. next_power_of_two_from (2 * p) n = 2 ^ k \<and> n \<le> 2 ^ k \<and> (k = 0 \<or> 2 ^ (k - 1) < n)"
      using False 1(2) np by (intro 1(1)[of "Suc i"]) simp_all
    with False show ?thesis by (subst next_power_of_two_from.simps) simp
  qed
qed

lemma next_power_of_two_props:
  "\<exists>k. next_power_of_two n = 2 ^ k \<and> n \<le> 2 ^ k \<and> (\<forall>j. n \<le> 2 ^ j \<longrightarrow> k \<le> j)"
proof -
  have "\<exists>k. next_power_of_two_from 1 n = 2 ^ k \<and> n \<le> 2 ^ k \<and> (k = 0 \<or> 2 ^ (k - 1) < n)"
    by (rule next_power_of_two_from_props[of 1 0 n]) simp_all
  then obtain k where k: "next_power_of_two n = 2 ^ k" "n \<le> 2 ^ k" "k = 0 \<or> 2 ^ (k - 1) < n"
    unfolding next_power_of_two_def by blast
  have "k \<le> j" if "n \<le> 2 ^ j" for j
  proof (cases "k = 0")
    case False
    with k(3) have "2 ^ (k - 1) < n" by simp
    also note that
    finally have "(2::nat) ^ (k - 1) < 2 ^ j" .
    then have "k - 1 < j" by (simp only: power_strict_increasing_iff rel_simps)
    then show ?thesis by simp
  qed simp
  with k show ?thesis by blast
qed

lemma next_power_of_two_le_iff: "next_power_of_two n \<le> 2 ^ j \<longleftrightarrow> n \<le> 2 ^ j"
proof -
  obtain k where k: "next_power_of_two n = 2 ^ k" "n \<le> 2 ^ k" "\<And>j. n \<le> 2 ^ j \<Longrightarrow> k \<le> j"
    using next_power_of_two_props[of n] by blast
  show ?thesis
  proof
    assume "next_power_of_two n \<le> 2 ^ j"
    with k(2) show "n \<le> 2 ^ j" unfolding k(1) by (rule order_trans)
  next
    assume "n \<le> 2 ^ j"
    then have "k \<le> j" by (rule k(3))
    then show "next_power_of_two n \<le> 2 ^ j" unfolding k(1) by (rule power_increasing) simp
  qed
qed

lemma pow2_four_times:
  assumes "2 \<le> j"
  obtains q :: nat where "2 ^ j = 4 * q"
proof -
  from assms have "j = 2 + (j - 2)" by simp
  then have "(2::nat) ^ j = 2 ^ (2 + (j - 2))" by simp
  also have "\<dots> = 4 * 2 ^ (j - 2)" by (simp only: power_add) simp
  finally show thesis by (rule that)
qed

text \<open>Rounding the quotient down, as the code does, or up, as the spec says, is the same
  after rounding up to a power of two.\<close>

lemma floor_ceil_same_power:
  assumes "3 \<le> t"
  shows "next_power_of_two (t * 4 div 3) = next_power_of_two ((t * 4 + 2) div 3)"
proof -
  have cross: "(t * 4 + 2) div 3 \<le> 2 ^ j" if "t * 4 div 3 \<le> 2 ^ j" for j
  proof -
    from assms have "4 \<le> t * 4 div 3" by simp
    with that have "(2::nat) ^ 2 \<le> 2 ^ j" by simp
    then have "2 \<le> j" by (simp only: power_increasing_iff) 
    then obtain q :: nat where q: "2 ^ j = 4 * q" by (rule pow2_four_times)
    from that show ?thesis unfolding q by arith
  qed
  obtain a where a: "next_power_of_two (t * 4 div 3) = 2 ^ a" "t * 4 div 3 \<le> 2 ^ a"
    using next_power_of_two_props[of "t * 4 div 3"] by blast
  obtain b where b: "next_power_of_two ((t * 4 + 2) div 3) = 2 ^ b" "(t * 4 + 2) div 3 \<le> 2 ^ b"
    using next_power_of_two_props[of "(t * 4 + 2) div 3"] by blast
  have "next_power_of_two ((t * 4 + 2) div 3) \<le> 2 ^ a"
    using cross[OF a(2)] by (simp only: next_power_of_two_le_iff)
  moreover have "t * 4 div 3 \<le> 2 ^ b" using b(2) by (rule order_trans[rotated]) simp
  then have "next_power_of_two (t * 4 div 3) \<le> 2 ^ b" by (simp only: next_power_of_two_le_iff)
  ultimately show ?thesis unfolding a(1) b(1) by (rule order_antisym[rotated])
qed

lemma load_factor_arith:
  assumes "3 \<le> t"
  shows "4 * t \<le> 3 * next_power_of_two (t * 4 div 3)"
proof -
  obtain a where a: "next_power_of_two (t * 4 div 3) = 2 ^ a" "t * 4 div 3 \<le> 2 ^ a"
    using next_power_of_two_props[of "t * 4 div 3"] by blast
  from assms have "4 \<le> t * 4 div 3" by simp
  with a(2) have "(2::nat) ^ 2 \<le> 2 ^ a" by simp
  then have "2 \<le> a" by (simp only: power_increasing_iff)
  then obtain q :: nat where q: "2 ^ a = 4 * q" by (rule pow2_four_times)
  from a(2) show ?thesis unfolding a(1) q by arith
qed

lemma unat_max: "unat (max (a::u32) b) = max (unat a) (unat b)"
  by (simp add: max_def word_le_nat_alt)

lemma planned_allocated_unat:
  "\<exists>k<32. planned_allocated len = 2 ^ k
     \<and> 2 ^ k = next_power_of_two (unat (max (word_of_nat len) 3 * 4 div 3 :: u32))"
proof -
  let ?x = "max (word_of_nat len) 3 * 4 div 3 :: u32"
  have "unat ?x = unat (max (word_of_nat len) 3 * 4 :: u32) div 3" by (simp add: unat_div)
  also have "\<dots> \<le> (2 ^ 32 - 1) div 3"
    using unsigned_less[of "max (word_of_nat len) 3 * 4 :: u32", where 'a=nat]
    by (intro div_le_mono) simp
  finally have x: "unat ?x \<le> 2 ^ 31" by simp
  obtain k where k: "next_power_of_two (unat ?x) = 2 ^ k" "\<And>j. unat ?x \<le> 2 ^ j \<Longrightarrow> k \<le> j"
    using next_power_of_two_props[of "unat ?x"] by blast
  from k(2)[OF x] have k32: "k < 32" by simp
  have "planned_allocated len = word_of_nat (2 ^ k)"
    by (simp add: planned_allocated_def Let_def next_power_of_2_def k(1))
  then have "planned_allocated len = 2 ^ k" by simp
  with k32 k(1) show ?thesis by auto
qed

lemma planned_allocated_small:
  assumes "len < 2 ^ 30"
  shows "unat (planned_allocated len) = next_power_of_two (max len 3 * 4 div 3)"
proof -
  have l: "unat (word_of_nat len :: u32) = len"
    using assms by (simp add: unat_of_nat)
  have m: "unat (max (word_of_nat len) 3 :: u32) = max len 3"
    by (simp add: unat_max l)
  have "unat (max (word_of_nat len) 3 * 4 :: u32) = (max len 3 * 4) mod 2 ^ 32"
    by (simp add: unat_word_ariths m)
  also have "\<dots> = max len 3 * 4" using assms by simp
  finally have "unat (max (word_of_nat len) 3 * 4 div 3 :: u32) = max len 3 * 4 div 3"
    by (simp add: unat_div)
  moreover obtain k where "k < 32" "planned_allocated len = 2 ^ k"
     "2 ^ k = next_power_of_two (unat (max (word_of_nat len) 3 * 4 div 3 :: u32))"
    using planned_allocated_unat[of len] by blast
  ultimately show ?thesis by (simp add: unat_pow2)
qed

lemma planned_allocated_load:
  assumes "len < 2 ^ 30"
  shows "4 * len \<le> 3 * unat (planned_allocated len)"
proof -
  have "4 * len \<le> 4 * max len 3" by simp
  also have "\<dots> \<le> 3 * next_power_of_two (max len 3 * 4 div 3)"
    by (rule load_factor_arith) simp
  finally show ?thesis by (simp add: planned_allocated_small[OF assms])
qed

lemma fresh_table_built: "built_from h (fresh_table alloc) []"
  by (simp add: built_from_def fresh_table_def occupied_def zero_entry_def)

lemma fresh_table_wf: "ClassMap_wf (fresh_table (planned_allocated len))"
  using planned_allocated_unat[of len] by (auto simp: ClassMap_wf_def fresh_table_def)

lemma length_valid_items: "length (valid_items kvs) = length kvs"
  by (simp add: valid_items_def)

lemma ClassMap_new_valid:
  "ClassMap_new h True True (PyDict (valid_items kvs)) rc
     = (case ClassMap_new_loop h (fresh_table (planned_allocated (length kvs)), rc) (valid_items kvs) of
          None \<Rightarrow> None
        | Some (Inl x) \<Rightarrow> None
        | Some (Inr st) \<Rightarrow> Some (Inr st))"
  using ClassMap_new_loop_valid_not_Inl[of h _ kvs]
  by (auto simp: ClassMap_new_def Let_def fresh_table_def length_valid_items split: option.splits sum.splits)

text \<open>With a free slot in a well-formed table, a lookup stops: at a free slot or at its key.\<close>

lemma lookup_stops:
  assumes wf: "ClassMap_wf cmap"
    and fr: "\<exists>s < length (entries cmap). name (entries cmap ! s) = None"
  shows "\<exists>n. (\<forall>j<n. other_key (entries cmap) nm (probe_sequence (allocated cmap - 1) (h nm) j))
           \<and> unat (probe_sequence (allocated cmap - 1) (h nm) n) < length (entries cmap)
           \<and> (name (entries cmap ! unat (probe_sequence (allocated cmap - 1) (h nm) n)) = None
              \<or> name (entries cmap ! unat (probe_sequence (allocated cmap - 1) (h nm) n)) = Some nm)"
proof -
  from wf obtain k where k: "k < 32" "allocated cmap - 1 = mask k" "length (entries cmap) = 2 ^ k"
    by (rule ClassMap_wf_D)
  let ?ps = "probe_sequence (mask k) (h nm)"
  have rng: "unat (?ps j) < length (entries cmap)" for j
    using bucket_in_range[of k "h nm" j] k(1,3) by (simp add: probe_sequence_def)
  from fr obtain s where s: "s < 2 ^ k" "name (entries cmap ! s) = None" using k(3) by auto
  from probe_reaches_every_slot[of k s "(h nm, h nm AND mask k)"] k(1) s(1)
  obtain n where "unat (?ps n) = s" by (auto simp: probe_sequence_def)
  with s have ex: "\<not> other_key (entries cmap) nm (?ps n)" by (simp add: other_key_def)
  define n0 where "n0 = (LEAST n. \<not> other_key (entries cmap) nm (?ps n))"
  have f0: "\<not> other_key (entries cmap) nm (?ps n0)" unfolding n0_def using ex by (rule LeastI)
  have "\<forall>j<n0. other_key (entries cmap) nm (?ps j)"
  proof (intro allI impI)
    fix j assume "j < n0"
    then have "\<not> \<not> other_key (entries cmap) nm (?ps j)" unfolding n0_def by (rule not_less_Least)
    then show "other_key (entries cmap) nm (?ps j)" by simp
  qed
  moreover from f0 rng[of n0]
  have "name (entries cmap ! unat (?ps n0)) = None \<or> name (entries cmap ! unat (?ps n0)) = Some nm"
    by (cases "name (entries cmap ! unat (?ps n0))") (auto simp: other_key_def)
  ultimately show ?thesis unfolding k(2) using rng[of n0] by blast
qed

lemma ClassMap_LookupMember_at:
  assumes "\<forall>j<n. other_key (entries cmap) nm (probe_sequence (allocated cmap - 1) (h nm) j)"
    and "unat (probe_sequence (allocated cmap - 1) (h nm) n) < length (entries cmap)"
  shows "ClassMap_LookupMember h cmap nm out
    = (let e = entries cmap ! unat (probe_sequence (allocated cmap - 1) (h nm) n) in
       if name e = None then Some out
       else if name e = Some nm then Some (member e, index e)
       else ClassMap_LookupMember_loop (entries cmap) (allocated cmap - 1) nm
              (fst (probe_state (allocated cmap - 1) (h nm, h nm AND (allocated cmap - 1)) (Suc n)))
              (snd (probe_state (allocated cmap - 1) (h nm, h nm AND (allocated cmap - 1)) (Suc n))) out)"
proof -
  let ?msk = "allocated cmap - 1"
  let ?s = "probe_state ?msk (h nm, h nm AND ?msk) n"
  have "ClassMap_LookupMember h cmap nm out
      = ClassMap_LookupMember_loop (entries cmap) ?msk nm (fst ?s) (snd ?s) out"
    unfolding ClassMap_LookupMember_def Let_def
    using assms(1) by (intro lookup_loop_run) (simp add: probe_sequence_def)
  also have "\<dots> = (let e = entries cmap ! unat (snd ?s) in
       if name e = None then Some out
       else if name e = Some nm then Some (member e, index e)
       else ClassMap_LookupMember_loop (entries cmap) ?msk nm
              (fst (probe_state ?msk (h nm, h nm AND ?msk) (Suc n)))
              (snd (probe_state ?msk (h nm, h nm AND ?msk) (Suc n))) out)"
    using assms(2)
    by (subst ClassMap_LookupMember_loop.simps)
       (auto simp: probe_sequence_def Let_def pystr_equal_def probe_state_Suc probe_step_def)
  finally show ?thesis by (simp add: probe_sequence_def)
qed

lemma ClassMap_LookupMember_absent:
  assumes wf: "ClassMap_wf cmap"
    and fr: "\<exists>s < length (entries cmap). name (entries cmap ! s) = None"
    and ab: "\<forall>e \<in> set (entries cmap). name e \<noteq> Some nm"
  shows "ClassMap_LookupMember h cmap nm out = Some out"
proof -
  from lookup_stops[OF wf fr, of nm h] obtain n where
    n: "\<forall>j<n. other_key (entries cmap) nm (probe_sequence (allocated cmap - 1) (h nm) j)"
       "unat (probe_sequence (allocated cmap - 1) (h nm) n) < length (entries cmap)"
       "name (entries cmap ! unat (probe_sequence (allocated cmap - 1) (h nm) n)) = None
          \<or> name (entries cmap ! unat (probe_sequence (allocated cmap - 1) (h nm) n)) = Some nm"
    by blast
  from n(2) ab have "name (entries cmap ! unat (probe_sequence (allocated cmap - 1) (h nm) n)) \<noteq> Some nm"
    by simp
  with n(3) have "name (entries cmap ! unat (probe_sequence (allocated cmap - 1) (h nm) n)) = None"
    by simp
  then show ?thesis by (simp add: ClassMap_LookupMember_at[where h=h and nm=nm and cmap=cmap and n=n, OF n(1,2)])
qed

lemma ClassMap_LookupMember_terminates:
  assumes wf: "ClassMap_wf cmap"
    and fr: "\<exists>s < length (entries cmap). name (entries cmap ! s) = None"
  shows "\<exists>r. ClassMap_LookupMember h cmap nm out = Some r"
proof -
  from lookup_stops[OF wf fr, of nm h] obtain n where
    n: "\<forall>j<n. other_key (entries cmap) nm (probe_sequence (allocated cmap - 1) (h nm) j)"
       "unat (probe_sequence (allocated cmap - 1) (h nm) n) < length (entries cmap)"
       "name (entries cmap ! unat (probe_sequence (allocated cmap - 1) (h nm) n)) = None
          \<or> name (entries cmap ! unat (probe_sequence (allocated cmap - 1) (h nm) n)) = Some nm"
    by blast
  from n(3) show ?thesis by (auto simp: ClassMap_LookupMember_at[where h=h and nm=nm and cmap=cmap and n=n, OF n(1,2)] Let_def)
qed

section \<open>Tables that ClassMap\_new returns\<close>

lemma built_from_length:
  assumes "built_from h cmap kvs"
  shows "length kvs = length (filter occupied (entries cmap))"
proof -
  have "length (filter occupied (entries cmap)) = size (mset (filter occupied (entries cmap)))"
    by (rule size_mset[symmetric])
  also have "\<dots> = length kvs" using assms by (simp only: built_from_def) simp
  finally show ?thesis by simp
qed

lemma next_power_of_two_0: "next_power_of_two 0 = 1"
  by (simp add: next_power_of_two_def next_power_of_two_from.simps)

lemma w30: "(word_of_nat (2 ^ 30) :: u32) = 2 ^ 30" by simp

lemma m30: "max ((2::u32) ^ 30) 3 = 2 ^ 30" by (simp add: max_def)

lemma x30: "(2::u32) ^ 30 * 4 = 0" by simp

lemma planned_allocated_2_30: "planned_allocated (2 ^ 30) = 1"
  by (simp only: planned_allocated_def Let_def w30 m30 x30) (simp add: next_power_of_2_def next_power_of_two_0)

lemma w31: "(word_of_nat (2 ^ 31) :: u32) = 2 ^ 31" by simp

lemma m31: "max ((2::u32) ^ 31) 3 = 2 ^ 31" by (simp add: max_def)

lemma x31: "(2::u32) ^ 31 * 4 = 0" by simp

lemma planned_allocated_2_31: "planned_allocated (2 ^ 31) = 1"
  by (simp only: planned_allocated_def Let_def w31 m31 x31) (simp add: next_power_of_2_def next_power_of_two_0)

lemma planned_allocated_not_full: "unat (planned_allocated len) \<noteq> len"
proof
  assume e: "unat (planned_allocated len) = len"
  obtain k where k: "k < 32" "planned_allocated len = 2 ^ k"
    using planned_allocated_unat[of len] by blast
  from e k have l: "len = 2 ^ k" by (simp add: unat_pow2)
  show False
  proof (cases "len < 2 ^ 30")
    case True
    from planned_allocated_load[OF True] e have "len = 0" by simp
    with l show False by simp
  next
    case False
    with l have "(2::nat) ^ 30 \<le> 2 ^ k" by simp
    then have "30 \<le> k" by (simp only: power_increasing_iff rel_simps)
    with k(1) have "k = 30 \<or> k = 31" by arith
    then show False
    proof
      assume "k = 30"
      with l k(2) have "planned_allocated (2 ^ 30) = (2::u32) ^ 30" by (simp only:)
      then have "(1::u32) = 2 ^ 30" by (simp only: planned_allocated_2_30)
      then show False by simp
    next
      assume "k = 31"
      with l k(2) have "planned_allocated (2 ^ 31) = (2::u32) ^ 31" by (simp only:)
      then have "(1::u32) = 2 ^ 31" by (simp only: planned_allocated_2_31)
      then show False by simp
    qed
  qed
qed

text \<open>What a returning \<open>ClassMap_new\<close> hands back for a mapping with distinct names.\<close>

lemma ClassMap_new_built:
  assumes d: "distinct (map fst kvs)"
    and r: "ClassMap_new h ta ma (PyDict (valid_items kvs)) rc = Some (Inr st)"
  shows "built_from h (fst st) kvs" "allocated (fst st) = planned_allocated (length kvs)"
    "ClassMap_wf (fst st)" "\<exists>s < length (entries (fst st)). name (entries (fst st) ! s) = None"
proof -
  let ?t0 = "fresh_table (planned_allocated (length kvs))"
  have "ta" using r by (cases ta) (simp_all add: ClassMap_new_def)
  moreover have "ma" using r \<open>ta\<close> by (cases ma) (simp_all add: ClassMap_new_def Let_def)
  ultimately have "ClassMap_new h True True (PyDict (valid_items kvs)) rc = Some (Inr st)"
    using r by simp
  then have l: "ClassMap_new_loop h (?t0, rc) (valid_items kvs) = Some (Inr st)"
    unfolding ClassMap_new_valid by (simp split: option.splits sum.splits)
  from ClassMap_new_loop_built[OF d fresh_table_built l]
  have b: "built_from h (fst st) kvs" and a: "allocated (fst st) = allocated ?t0"
    and n: "length (entries (fst st)) = length (entries ?t0)" by simp_all
  show "built_from h (fst st) kvs" by (rule b)
  show a': "allocated (fst st) = planned_allocated (length kvs)" using a by (simp add: fresh_table_def)
  show wf: "ClassMap_wf (fst st)"
    using fresh_table_wf[of "length kvs"] a n by (simp add: ClassMap_wf_def)
  have len: "length (entries (fst st)) = unat (planned_allocated (length kvs))"
    using n by (simp add: fresh_table_def)
  have "length kvs \<le> length (entries (fst st))"
    unfolding built_from_length[OF b] by (rule length_filter_le)
  with planned_allocated_not_full[of "length kvs"] len
  have "length kvs < length (entries (fst st))" by simp
  with built_from_free_slot[OF b]
  show "\<exists>s < length (entries (fst st)). name (entries (fst st) ! s) = None" by simp
qed

lemma ClassMap_new_total:
  assumes d: "distinct (map fst kvs)" and sz: "length kvs < 2 ^ 30"
  shows "\<exists>st. ClassMap_new h True True (PyDict (valid_items kvs)) rc = Some (Inr st)"
proof -
  let ?t0 = "fresh_table (planned_allocated (length kvs))"
  have "length kvs \<le> unat (planned_allocated (length kvs))"
    using planned_allocated_load[OF sz] by simp
  then have "length kvs \<le> length (entries ?t0)" by (simp add: fresh_table_def)
  from ClassMap_new_loop_total[OF fresh_table_wf fresh_table_built d this, of h rc]
  show ?thesis by (auto simp: ClassMap_new_valid)
qed

section \<open>Lemmas for the properties\<close>

lemma lookup_loop_unwritten:
  assumes "ClassMap_LookupMember_loop base msk nm hash bucket out = Some r"
  shows "unwritten base msk nm hash bucket out r"
proof (rule ClassMap_LookupMember_loop.raw_induct[where P = unwritten, OF _ assms])
  fix loop base msk nm hash bucket out r
  assume IH: "\<And>base msk nm hash bucket out r. loop base msk nm hash bucket out = Some r
                \<Longrightarrow> unwritten base msk nm hash bucket out r"
    and body: "(if unat bucket < length base
      then let entry = base ! unat bucket
           in case name entry of None \<Rightarrow> Some out
              | Some k \<Rightarrow>
                  if pystr_equal nm k then Some (member entry, index entry)
                  else loop base msk nm (drop_bit 5 hash)
                        (push_bit 2 bucket + bucket + hash + 1 AND msk) out
      else None) = Some r"
  have rng: "unat bucket < length base" using body by (simp split: if_splits)
  show "unwritten base msk nm hash bucket out r"
  proof (cases "name (base ! unat bucket)")
    case None
    with rng body show ?thesis by (simp add: unwritten_def Let_def)
  next
    case (Some k)
    show ?thesis
    proof (cases "k = nm")
      case True
      with Some rng have "\<exists>e \<in> set base. name e = Some nm" by (auto intro: bexI[of _ "base ! unat bucket"])
      then show ?thesis unfolding unwritten_def by blast
    next
      case False
      with Some rng body
      have "loop base msk nm (drop_bit 5 hash) (push_bit 2 bucket + bucket + hash + 1 AND msk) out = Some r"
        by (simp add: Let_def pystr_equal_def)
      from IH[OF this] show ?thesis by (simp add: unwritten_def)
    qed
  qed
qed

lemma has_free_slot_iff:
  "has_free_slot cmap \<longleftrightarrow> (\<exists>s < length (entries cmap). name (entries cmap ! s) = None)"
proof -
  have "None \<in> set (map name (entries cmap))
      \<longleftrightarrow> (\<exists>s < length (map name (entries cmap)). map name (entries cmap) ! s = None)"
    by (simp only: in_set_conv_nth)
  then show ?thesis unfolding has_free_slot_def by (simp cong: conj_cong)
qed

lemma stores_iff: "stores cmap nm \<longleftrightarrow> (\<exists>e \<in> set (entries cmap). name e = Some nm)"
  unfolding stores_def by force

lemma example_table_wf: "ClassMap_wf example_table"
  unfolding ClassMap_wf_def example_table_def by (auto intro!: bexI[of _ 2])

lemma example_table_free: "has_free_slot example_table"
  by (simp add: has_free_slot_def example_table_def)

lemma built_from_entry_in_table:
  assumes "built_from h cmap kvs" "i < length kvs"
  shows "entry_of kvs i \<in> set (entries cmap)"
proof -
  have "entry_of kvs i \<in># mset (map (entry_of kvs) [0 ..< length kvs])"
    using assms(2) by simp
  then have "entry_of kvs i \<in># mset (filter occupied (entries cmap))"
    using assms(1) by (simp only: built_from_def)
  then show ?thesis by simp
qed

lemma built_from_lookup:
  assumes "built_from h cmap kvs" "i < length kvs"
  shows "ClassMap_LookupMember h cmap (fst (kvs ! i)) out = Some (Some (snd (kvs ! i)), word_of_nat i)"
proof -
  from assms have "probe_finds (entries cmap) (allocated cmap - 1) (fst (kvs ! i)) (h (fst (kvs ! i))) (entry_of kvs i)"
    by (simp add: built_from_def)
  from ClassMap_LookupMember_probe_finds[where h=h and nm="fst (kvs ! i)", OF this, of out]
  show ?thesis by (simp add: entry_of_def)
qed

lemma example_mapping_distinct: "distinct (map fst example_mapping)"
  by (simp add: example_mapping_def)

lemma free_slot_proves_absence:
  assumes pf: "probe_finds base msk nm hash e"
    and run: "\<forall>j<n. other_key base nm (probe_sequence msk hash j)"
    and fr: "free_slot base (probe_sequence msk hash n)"
  shows False
proof -
  from pf obtain n' where
    n': "\<forall>j<n'. other_key base nm (probe_sequence msk hash j)"
        "unat (probe_sequence msk hash n') < length base"
        "base ! unat (probe_sequence msk hash n') = e" "name e = Some nm"
    unfolding probe_finds_def by blast
  consider "n < n'" | "n = n'" | "n' < n" by arith
  then show False
  proof cases
    case 1
    with n'(1) have "other_key base nm (probe_sequence msk hash n)" by simp
    with fr show False by (auto simp: other_key_def free_slot_def)
  next
    case 2
    with fr n'(3,4) show False by (auto simp: free_slot_def)
  next
    case 3
    with run have "other_key base nm (probe_sequence msk hash n')" by simp
    with n'(3,4) show False by (auto simp: other_key_def)
  qed
qed

lemma next_power_of_two_4: "next_power_of_two 4 = 4"
  by (simp add: next_power_of_two_def next_power_of_two_from.simps)

lemma planned_allocated_3: "planned_allocated 3 = 4"
  by code_simp

lemma planned_allocated_0: "planned_allocated 0 = 4"
  by code_simp

lemma capacity_plan_huge: "capacity_plan (2 ^ 30 + 3) = 2 ^ 31"
proof -
  have "(max (2 ^ 30 + 3) 3 * 4 + 2) div 3 = (1431655770::nat)" by simp
  moreover have "next_power_of_two 1431655770 = 2 ^ 31"
    unfolding next_power_of_two_def by (simp add: next_power_of_two_from.simps)
  ultimately show ?thesis by (simp only: capacity_plan_def)
qed

lemma probe_sequence_tail:
  assumes k: "k \<le> 32" and i: "7 \<le> i"
  shows "unat (probe_sequence (mask k) hash i) mod 2 ^ k
     = (lcg k ^^ (i - 7)) (unat (snd (probe_state (mask k) (hash, hash AND mask k) 7))) mod 2 ^ k"
proof -
  let ?s0 = "(hash, hash AND mask k)"
  let ?s7 = "probe_state (mask k) ?s0 7"
  have h0: "fst ?s7 = 0" by (rule fst_probe_state_zero) simp
  then have s7: "?s7 = (0, snd ?s7)" by (simp add: prod_eq_iff)
  from i have "i = 7 + (i - 7)" by simp
  then have "probe_state (mask k) ?s0 i = probe_state (mask k) ?s7 (i - 7)"
    by (metis probe_state_add)
  also have "\<dots> = probe_state (mask k) (0, snd ?s7) (i - 7)" using s7 by simp
  finally show ?thesis
    using probe_state_zero_hash[OF k, of "snd ?s7" "i - 7"] by (simp add: probe_sequence_def)
qed

lemma length_huge_mapping: "length huge_mapping = 2 ^ 30 + 3"
  by (simp add: huge_mapping_def)

lemma distinct_huge_mapping: "distinct (map fst huge_mapping)"
proof -
  have "map fst huge_mapping = map (\<lambda>i. replicate i CHR ''a'') [0 ..< 2 ^ 30 + 3]"
    by (simp add: huge_mapping_def comp_def)
  moreover have "inj_on (\<lambda>i. replicate i CHR ''a'') (set [0 ..< 2 ^ 30 + 3])"
    by (rule inj_onI) (metis length_replicate)
  ultimately show ?thesis by (simp add: distinct_map)
qed

lemma take_huge_mapping: "take 4 huge_mapping = [('''', 0), (''a'', 1), (''aa'', 2), (''aaa'', 3)]"
proof -
  have "take 4 [0 ..< 2 ^ 30 + 3] = [0 ..< (4::nat)]" using take_upt[of 0 4 "2 ^ 30 + 3"] by simp
  then have "take 4 huge_mapping = map (\<lambda>i. (replicate i CHR ''a'', i)) [0 ..< 4]"
    by (simp only: huge_mapping_def take_map)
  also have "[0 ..< 4] = [0, 1, 2, 3::nat]" by (simp add: upt_rec)
  finally show ?thesis by (simp add: numeral_eq_Suc)
qed

lemma planned_allocated_huge: "planned_allocated (2 ^ 30 + 3) = 4"
proof -
  have w: "(word_of_nat (2 ^ 30 + 3) :: u32) = 2 ^ 30 + 3" by simp
  have m: "max ((2::u32) ^ 30 + 3) 3 = 2 ^ 30 + 3" by (simp add: max_def)
  have x: "((2::u32) ^ 30 + 3) * 4 div 3 = 4" by simp
  show ?thesis
    by (simp only: planned_allocated_def Let_def w m x)
       (simp add: next_power_of_2_def next_power_of_two_4)
qed

lemma visit_all_append:
  "visit_all visit (xs @ ys) arg
     = (case visit_all visit xs arg of (vret, arg') \<Rightarrow>
          if vret \<noteq> 0 then (vret, arg') else visit_all visit ys arg')"
  by (induction xs arbitrary: arg) (auto split: prod.splits)

lemma stored_refs_Cons: "stored_refs (e # es) = entry_refs e @ stored_refs es"
  by (simp add: stored_refs_def)

lemma ClassMap_traverse_loop_upt:
  assumes "i \<le> length base"
  shows "ClassMap_traverse_loop base visit [i ..< length base] arg
           = Some (visit_all visit (stored_refs (drop i base)) arg)"
  using assms
proof (induction "length base - i" arbitrary: i arg)
  case 0
  then show ?case by (simp add: stored_refs_def)
next
  case (Suc d)
  then have i: "i < length base" and d: "d = length base - Suc i" and si: "Suc i \<le> length base"
    by simp_all
  have u: "[i ..< length base] = i # [Suc i ..< length base]" using i by (rule upt_conv_Cons)
  have dr: "drop i base = base ! i # drop (Suc i) base"
    using i by (simp add: Cons_nth_drop_Suc)
  note IH = Suc.hyps(1)[OF d si]
  show ?case
  proof (cases "name (base ! i)")
    case None
    then show ?thesis using i by (simp add: u dr IH stored_refs_Cons entry_refs_def)
  next
    case (Some k)
    show ?thesis
    proof (cases "member (base ! i)")
      case None
      with Some show ?thesis using i
        by (simp add: u dr IH stored_refs_Cons entry_refs_def split: prod.splits)
    next
      case (Some m)
      with \<open>name (base ! i) = Some k\<close> show ?thesis using i
        by (simp add: u dr IH stored_refs_Cons entry_refs_def split: prod.splits)
    qed
  qed
qed

lemma release_all_append: "release_all (xs @ ys) rc = release_all ys (release_all xs rc)"
  by (simp add: release_all_def)

lemma ClassMap_clear_loop_upt:
  assumes "n = length base" "i \<le> n"
  shows "ClassMap_clear_loop [i ..< n] (base, rc)
           = Some (take i base @ map cleared_entry (drop i base),
                   release_all (stored_refs (drop i base)) rc)"
  using assms
proof (induction "n - i" arbitrary: i base rc)
  case 0
  then show ?case by (simp add: stored_refs_def release_all_def)
next
  case (Suc d)
  then have i: "i < length base" and d: "d = n - Suc i" and si: "Suc i \<le> n"
    and n: "n = length base" and i': "i < n" by simp_all
  have u: "[i ..< n] = i # [Suc i ..< n]" using i' by (rule upt_conv_Cons)
  have dr: "drop i base = base ! i # drop (Suc i) base"
    using i by (simp add: Cons_nth_drop_Suc)
  have tk: "take (Suc i) base = take i base @ [base ! i]"
    using i by (simp add: take_Suc_conv_app_nth)
  show ?case
  proof (cases "name (base ! i)")
    case None
    have "ClassMap_clear_loop [i ..< n] (base, rc) = ClassMap_clear_loop [Suc i ..< n] (base, rc)"
      unfolding u using None i by simp
    also have "\<dots> = Some (take (Suc i) base @ map cleared_entry (drop (Suc i) base),
                   release_all (stored_refs (drop (Suc i) base)) rc)"
      by (rule Suc.hyps(1)[OF d n si])
    finally show ?thesis using None
      by (simp add: dr tk stored_refs_Cons entry_refs_def cleared_entry_def)
  next
    case (Some k)
    let ?e = "(base ! i)\<lparr>name := None, member := None\<rparr>"
    let ?rc = "release_all (entry_refs (base ! i)) rc"
    let ?base = "base[i := ?e]"
    have rc: "?rc = (case member (base ! i) of None \<Rightarrow> Py_DECREF rc (PyString k)
                      | Some m \<Rightarrow> Py_DECREF (Py_DECREF rc (PyString k)) (Member m))"
      using Some by (simp add: entry_refs_def release_all_def split: option.splits)
    have "ClassMap_clear_loop [i ..< n] (base, rc) = ClassMap_clear_loop [Suc i ..< n] (?base, ?rc)"
      unfolding u using Some i by (simp add: rc Let_def split: option.splits)
    also have "\<dots> = Some (take (Suc i) ?base @ map cleared_entry (drop (Suc i) ?base),
                   release_all (stored_refs (drop (Suc i) ?base)) ?rc)"
      using n si by (intro Suc.hyps(1)[OF d]) simp_all
    also have "take (Suc i) ?base = take i base @ [?e]"
      using i by (simp add: take_Suc_conv_app_nth)
    also have "drop (Suc i) ?base = drop (Suc i) base" by simp
    finally show ?thesis using Some
      by (simp add: dr stored_refs_Cons cleared_entry_def release_all_append)
  qed
qed

lemma entry_refs_cleared: "entry_refs (cleared_entry e) = []"
  by (simp add: entry_refs_def cleared_entry_def split: option.splits)

lemma stored_refs_cleared: "stored_refs (map cleared_entry base) = []"
  by (induction base) (simp_all add: stored_refs_def entry_refs_cleared)

lemma cleared_entry_idem: "cleared_entry (cleared_entry e) = cleared_entry e"
  by (simp add: cleared_entry_def split: option.splits)

lemma name_cleared_entry: "name (cleared_entry e) = None"
  by (simp add: cleared_entry_def split: option.splits)

lemma ClassMap_clear_eq:
  assumes "length (entries cmap) = unat (allocated cmap)"
  shows "ClassMap_clear (cmap, rc)
           = Some (cmap\<lparr>entries := map cleared_entry (entries cmap)\<rparr>,
                   release_all (stored_refs (entries cmap)) rc)"
  using ClassMap_clear_loop_upt[of "unat (allocated cmap)" "entries cmap" 0 rc] assms
  by (simp add: ClassMap_clear_def)

lemma ClassMap_traverse_eq:
  assumes "length (entries cmap) = unat (allocated cmap)"
  shows "ClassMap_traverse cmap visit arg = Some (visit_all visit (stored_refs (entries cmap)) arg)"
  using ClassMap_traverse_loop_upt[of 0 "entries cmap" visit arg] assms
  by (simp add: ClassMap_traverse_def)

lemma visit_all_record: "visit_all record_visit obs seen = (0, seen @ obs)"
  by (induction obs arbitrary: seen) (simp_all add: record_visit_def)

lemma release_all_count:
  "release_all obs rc ob = rc ob - int (count_list obs ob)"
  by (induction obs arbitrary: rc) (simp_all add: release_all_def Py_DECREF_def)

lemma ClassMap_new_loop_bad:
  assumes "\<not> (PyString_Check key \<and> Member_Check val)"
  shows "ClassMap_new_loop h st ((key, val) # rest) = Some (Inl (type_error key val, st))"
  using assms by (cases key; cases val) (simp_all add: PyString_Check_def Member_Check_def type_error_def)

lemma ClassMap_new_loop_pre_bad:
  assumes "\<not> (PyString_Check key \<and> Member_Check val)"
  shows "ClassMap_new_loop h st (valid_items pre @ (key, val) # rest)
           = (case ClassMap_new_loop h st (valid_items pre) of
                None \<Rightarrow> None
              | Some (Inl e) \<Rightarrow> Some (Inl e)
              | Some (Inr st1) \<Rightarrow> Some (Inl (type_error key val, st1)))"
  by (simp only: ClassMap_new_loop_append ClassMap_new_loop_bad[OF assms])

lemma ClassMap_new_Inr_iff:
  "ClassMap_new h ta ma (PyDict d) rc = Some (Inr st)
     \<longleftrightarrow> ta \<and> ma \<and> ClassMap_new_loop h (fresh_table (planned_allocated (length d)), rc) d = Some (Inr st)"
proof (cases "ta \<and> ma")
  case False
  then show ?thesis by (auto simp: ClassMap_new_def Let_def)
next
  case True
  show ?thesis
  proof (cases "ClassMap_new_loop h (fresh_table (planned_allocated (length d)), rc) d")
    case None
    with True show ?thesis by (simp add: ClassMap_new_def Let_def fresh_table_def)
  next
    case (Some r)
    show ?thesis
    proof (cases r)
      case (Inl p)
      obtain err st1 where p: "p = (err, st1)" by (cases p)
      from True Some Inl p show ?thesis
        by (cases "ClassMap_dealloc st1") (simp_all add: ClassMap_new_def Let_def fresh_table_def)
    next
      case (Inr st')
      with True Some show ?thesis by (simp add: ClassMap_new_def Let_def fresh_table_def)
    qed
  qed
qed

lemma ClassMap_dealloc_total:
  assumes "length (entries (fst st)) = unat (allocated (fst st))"
  shows "\<exists>rc'. ClassMap_dealloc st = Some rc'"
  using ClassMap_clear_eq[OF assms, of "snd st"] by (simp add: ClassMap_dealloc_def)

lemma filter_full:
  assumes "length (filter P xs) = length xs"
  shows "\<forall>x \<in> set xs. P x"
proof (rule ccontr)
  assume "\<not> (\<forall>x \<in> set xs. P x)"
  then obtain x where "x \<in> set xs" "\<not> P x" by blast
  then have "length (filter P xs) < length xs" by (rule length_filter_less)
  with assms show False by simp
qed

lemma built_from_full:
  assumes "built_from h cmap kvs" "length kvs = length (entries cmap)"
  shows "\<not> (\<exists>s < length (entries cmap). name (entries cmap ! s) = None)"
proof -
  from assms have "length (filter occupied (entries cmap)) = length (entries cmap)"
    by (simp add: built_from_length)
  then have "\<forall>e \<in> set (entries cmap). occupied e" by (rule filter_full)
  then show ?thesis by (auto simp: occupied_def)
qed

lemma insert_member_full:
  assumes "\<not> (\<exists>s < length (entries cmap). name (entries cmap ! s) = None)"
  shows "insert_member h (cmap, rc) nm mem = None"
proof (cases "insert_member h (cmap, rc) nm mem")
  case (Some st')
  from insert_member_SomeD[OF Some] obtain b where "free_slot (entries cmap) b"
    unfolding ins_path_def by auto
  with assms show ?thesis by (auto simp: free_slot_def)
qed simp

lemma length_huge_items_bad: "length huge_items_bad = 2 ^ 30 + 3"
  by (simp add: huge_items_bad_def length_valid_items length_huge_mapping)

lemma ClassMap_new_loop_huge:
  "ClassMap_new_loop h (fresh_table 4, rc) (valid_items (take 5 huge_mapping)) = None"
proof -
  have t5: "take 5 huge_mapping = take 4 huge_mapping @ [huge_mapping ! 4]"
    using take_Suc_conv_app_nth[of 4 huge_mapping] by (simp add: length_huge_mapping)
  obtain k m where km: "huge_mapping ! 4 = (k, m)" by (cases "huge_mapping ! 4")
  have d4: "distinct (map fst (take 4 huge_mapping))"
    using distinct_huge_mapping by (simp add: take_map[symmetric] distinct_take)
  have wf: "ClassMap_wf (fresh_table 4)"
    using fresh_table_wf[of 3] by (simp add: planned_allocated_3)
  have l4: "length (take 4 huge_mapping) = 4" by (simp add: length_huge_mapping)
  have e4: "length (entries (fresh_table 4)) = 4" by (simp add: fresh_table_def)
  from ClassMap_new_loop_total[OF wf fresh_table_built d4, of h rc] l4 e4
  obtain st4 where st4: "ClassMap_new_loop h (fresh_table 4, rc) (valid_items (take 4 huge_mapping)) = Some (Inr st4)"
    by auto
  from ClassMap_new_loop_built[OF d4 fresh_table_built st4]
  have b: "built_from h (fst st4) (take 4 huge_mapping)"
    and n: "length (entries (fst st4)) = length (entries (fresh_table 4))" by simp_all
  from built_from_full[OF b] l4 e4 n
  have "\<not> (\<exists>s < length (entries (fst st4)). name (entries (fst st4) ! s) = None)" by simp
  from insert_member_full[OF this, of h "snd st4" k m]
  have "insert_member h st4 k m = None" by simp
  with st4 show ?thesis by (simp add: t5 km ClassMap_new_loop_valid_snoc)
qed

lemma acquire_all_count: "acquire_all obs rc ob = rc ob + int (count_list obs ob)"
  by (induction obs arbitrary: rc) (simp_all add: acquire_all_def Py_INCREF_def)

lemma item_refs_snoc: "item_refs (kvs @ [(k, m)]) = item_refs kvs @ [PyString k, Member m]"
  by (simp add: item_refs_def)

lemma ClassMap_new_loop_refcounts:
  assumes "ClassMap_new_loop h (cmap0, rc) (valid_items kvs) = Some (Inr st)"
  shows "snd st = acquire_all (item_refs kvs) rc"
  using assms
proof (induction kvs arbitrary: st rule: rev_induct)
  case Nil
  then show ?case by (auto simp: valid_items_def acquire_all_def item_refs_def)
next
  case (snoc x kvs)
  obtain k m where x: "x = (k, m)" by (cases x)
  from snoc.prems obtain st1 where
    1: "ClassMap_new_loop h (cmap0, rc) (valid_items kvs) = Some (Inr st1)"
    and 2: "insert_member h st1 k m = Some st"
    unfolding x ClassMap_new_loop_valid_snoc
    by (auto split: option.splits sum.splits)
  from insert_member_SomeD[OF 2] obtain b where "st = ins_res k m b st1"
    unfolding ins_path_def by auto
  then have "snd st = Py_INCREF (Py_INCREF (snd st1) (PyString k)) (Member m)"
    by (simp add: ins_res_def)
  with snoc.IH[OF 1] show ?case
    by (simp add: x item_refs_snoc acquire_all_def)
qed

lemma mset_stored_refs: "mset (stored_refs base) = (\<Sum>e \<in># mset (filter occupied base). mset (entry_refs e))"
proof (induction base)
  case Nil show ?case by (simp add: stored_refs_def)
next
  case (Cons e base)
  have "\<not> occupied e \<Longrightarrow> entry_refs e = []" by (simp add: occupied_def entry_refs_def)
  with Cons show ?case by (auto simp: stored_refs_Cons)
qed

lemma built_from_stored_refs:
  assumes "built_from h cmap kvs"
  shows "mset (stored_refs (entries cmap)) = mset (item_refs kvs)"
proof -
  have "mset (stored_refs (entries cmap))
      = (\<Sum>e \<in># mset (map (entry_of kvs) [0 ..< length kvs]). mset (entry_refs e))"
    using assms by (simp only: mset_stored_refs built_from_def)
  also have "\<dots> = (\<Sum>i \<in># mset [0 ..< length kvs]. mset (entry_refs (entry_of kvs i)))"
    by (simp add: image_mset.compositionality comp_def)
  also have "\<dots> = (\<Sum>i \<in># mset [0 ..< length kvs]. {#PyString (fst (kvs ! i)), Member (snd (kvs ! i))#})"
    by (simp add: entry_refs_def entry_of_def)
  also have "\<dots> = mset (item_refs kvs)"
  proof (induction kvs rule: rev_induct)
    case Nil show ?case by (simp add: item_refs_def)
  next
    case (snoc x kvs)
    have "(\<Sum>i \<in># mset [0 ..< length kvs]. {#PyString (fst ((kvs @ [x]) ! i)), Member (snd ((kvs @ [x]) ! i))#})
        = (\<Sum>i \<in># mset [0 ..< length kvs]. {#PyString (fst (kvs ! i)), Member (snd (kvs ! i))#})"
      by (intro arg_cong[where f=sum_mset] image_mset_cong) (simp add: nth_append)
    with snoc show ?case by (cases x) (simp add: item_refs_snoc)
  qed
  finally show ?thesis .
qed

lemma release_acquire:
  assumes "mset obs = mset obs'"
  shows "release_all obs (acquire_all obs' rc) = rc"
proof
  fix ob
  have "count_list obs ob = count_list obs' ob"
    using assms by (metis count_mset)
  then show "release_all obs (acquire_all obs' rc) ob = rc ob"
    by (simp add: release_all_count acquire_all_count)
qed

lemma ClassMap_dealloc_restores:
  assumes d: "distinct (map fst kvs)" and b0: "built_from h cmap0 []"
    and len: "length (entries cmap0) = unat (allocated cmap0)"
    and l: "ClassMap_new_loop h (cmap0, rc) (valid_items kvs) = Some (Inr st)"
  shows "ClassMap_dealloc st = Some rc"
proof -
  from ClassMap_new_loop_built[OF d b0 l] len
  have b: "built_from h (fst st) kvs" and n: "length (entries (fst st)) = unat (allocated (fst st))"
    by simp_all
  have "ClassMap_dealloc st = Some (release_all (stored_refs (entries (fst st))) (snd st))"
    using ClassMap_clear_eq[OF n, of "snd st"] by (simp add: ClassMap_dealloc_def)
  also have "snd st = acquire_all (item_refs kvs) rc" by (rule ClassMap_new_loop_refcounts[OF l])
  also have "release_all (stored_refs (entries (fst st))) (acquire_all (item_refs kvs) rc) = rc"
    by (rule release_acquire[OF built_from_stored_refs[OF b]])
  finally show ?thesis .
qed

section \<open>The properties\<close>

subsection \<open>C1\<close>

text \<open>
  C1. For a mapping with distinct names, in every table that \<open>ClassMap_new\<close> returns the
  lookup of the \<open>i\<close>-th name returns the descriptor given with it and the index \<open>i\<close>, for
  any hash function; and \<open>ClassMap_new\<close> does return a table when the mapping has fewer
  than \<open>2 ^ 30\<close> names and both allocations succeed.
\<close>

theorem round_trip:
  assumes "distinct (map fst kvs)"
  shows "(\<forall>st i out. ClassMap_new h ta ma (PyDict (valid_items kvs)) rc = Some (Inr st)
            \<longrightarrow> i < length kvs
            \<longrightarrow> ClassMap_LookupMember h (fst st) (fst (kvs ! i)) out
                  = Some (Some (snd (kvs ! i)), word_of_nat i))
       \<and> (length kvs < 2 ^ 30
            \<longrightarrow> (\<exists>st. ClassMap_new h True True (PyDict (valid_items kvs)) rc = Some (Inr st)))"
proof (intro conjI allI impI)
  fix st i out
  assume "ClassMap_new h ta ma (PyDict (valid_items kvs)) rc = Some (Inr st)" "i < length kvs"
  with ClassMap_new_built(1)[OF assms, of h ta ma rc st] built_from_lookup[of h "fst st" kvs i out]
  show "ClassMap_LookupMember h (fst st) (fst (kvs ! i)) out = Some (Some (snd (kvs ! i)), word_of_nat i)"
    by simp
next
  assume "length kvs < 2 ^ 30"
  with assms show "\<exists>st. ClassMap_new h True True (PyDict (valid_items kvs)) rc = Some (Inr st)"
    by (rule ClassMap_new_total)
qed

theorem round_trip_witness:
  "distinct (map fst example_mapping) \<and> length example_mapping < 2 ^ 30
   \<and> (\<exists>st. ClassMap_new example_hash True True (PyDict (valid_items example_mapping)) example_refcounts
               = Some (Inr st)
         \<and> fst st = example_table
         \<and> ClassMap_LookupMember example_hash (fst st) ''a'' (None, 77) = Some (Some 1, 0)
         \<and> ClassMap_LookupMember example_hash (fst st) ''b'' (None, 77) = Some (Some 2, 1)
         \<and> ClassMap_LookupMember example_hash (fst st) ''c'' (None, 77) = Some (Some 3, 2))"
proof -
  let ?new = "ClassMap_new example_hash True True (PyDict (valid_items example_mapping)) example_refcounts"
  have l: "length example_mapping < 2 ^ 30" by (simp add: example_mapping_def)
  from round_trip[OF example_mapping_distinct, of example_hash True True example_refcounts] l
  obtain st where st: "?new = Some (Inr st)" by blast
  have e: "map_option (map_sum fst fst) ?new = Some (Inr example_table)" by code_simp
  from round_trip[OF example_mapping_distinct, of example_hash True True example_refcounts] st
  have "\<And>i out. i < length example_mapping \<Longrightarrow>
          ClassMap_LookupMember example_hash (fst st) (fst (example_mapping ! i)) out
            = Some (Some (snd (example_mapping ! i)), word_of_nat i)" by blast
  from this[of 0 "(None, 77)"] this[of 1 "(None, 77)"] this[of 2 "(None, 77)"]
  have "ClassMap_LookupMember example_hash (fst st) ''a'' (None, 77) = Some (Some 1, 0)"
    "ClassMap_LookupMember example_hash (fst st) ''b'' (None, 77) = Some (Some 2, 1)"
    "ClassMap_LookupMember example_hash (fst st) ''c'' (None, 77) = Some (Some 3, 2)"
    by (simp_all add: example_mapping_def)
  moreover from e st have "fst st = example_table" by simp
  ultimately show ?thesis using st l example_mapping_distinct by blast
qed

subsection \<open>C2\<close>

text \<open>
  C2. In every table that \<open>ClassMap_new\<close> returns for a mapping with distinct names, the
  lookup of a name that is not a key of the mapping returns with the outputs as the caller
  left them, after a run of other keys that ends at a free slot; and for any name, a free
  slot at the end of a run of other keys on its probe sequence means the name is not a key
  of the mapping.
\<close>

theorem absence:
  assumes "distinct (map fst kvs)"
    and "ClassMap_new h ta ma (PyDict (valid_items kvs)) rc = Some (Inr st)"
  shows "(nm \<notin> fst ` set kvs \<longrightarrow>
            ClassMap_LookupMember h (fst st) nm out = Some out
            \<and> (\<exists>n. (\<forall>j<n. other_key (entries (fst st)) nm
                              (probe_sequence (allocated (fst st) - 1) (h nm) j))
                  \<and> free_slot (entries (fst st)) (probe_sequence (allocated (fst st) - 1) (h nm) n)))
       \<and> (\<forall>n. (\<forall>j<n. other_key (entries (fst st)) nm
                          (probe_sequence (allocated (fst st) - 1) (h nm) j))
              \<longrightarrow> free_slot (entries (fst st)) (probe_sequence (allocated (fst st) - 1) (h nm) n)
              \<longrightarrow> nm \<notin> fst ` set kvs)"
proof (intro conjI allI impI)
  note b = ClassMap_new_built[OF assms]
  assume ab: "nm \<notin> fst ` set kvs"
  then have ns: "\<forall>e \<in> set (entries (fst st)). name e \<noteq> Some nm"
    using built_from_names[OF b(1)] by blast
  from ClassMap_LookupMember_absent[OF b(3) b(4) ns]
  show "ClassMap_LookupMember h (fst st) nm out = Some out" .
  let ?ps = "probe_sequence (allocated (fst st) - 1) (h nm)"
  from lookup_stops[OF b(3) b(4), of nm h] obtain n where
    n: "\<forall>j<n. other_key (entries (fst st)) nm (?ps j)"
       "unat (?ps n) < length (entries (fst st))"
       "name (entries (fst st) ! unat (?ps n)) = None \<or> name (entries (fst st) ! unat (?ps n)) = Some nm"
    by blast
  from n(2) ns have "name (entries (fst st) ! unat (?ps n)) \<noteq> Some nm" by simp
  with n(2,3) have "free_slot (entries (fst st)) (?ps n)" by (simp add: free_slot_def)
  with n(1) show "\<exists>n. (\<forall>j<n. other_key (entries (fst st)) nm (?ps j)) \<and> free_slot (entries (fst st)) (?ps n)"
    by blast
next
  note b = ClassMap_new_built[OF assms]
  fix n
  assume run: "\<forall>j<n. other_key (entries (fst st)) nm (probe_sequence (allocated (fst st) - 1) (h nm) j)"
    and fr: "free_slot (entries (fst st)) (probe_sequence (allocated (fst st) - 1) (h nm) n)"
  show "nm \<notin> fst ` set kvs"
  proof
    assume "nm \<in> fst ` set kvs"
    then obtain i where i: "i < length kvs" "nm = fst (kvs ! i)"
      by (auto simp: in_set_conv_nth)
    with b(1) have "probe_finds (entries (fst st)) (allocated (fst st) - 1) nm (h nm) (entry_of kvs i)"
      by (simp add: built_from_def)
    from free_slot_proves_absence[OF this run fr] show False .
  qed
qed

theorem absence_witness:
  "distinct (map fst example_mapping) \<and> ''z'' \<notin> fst ` set example_mapping
   \<and> (\<exists>st. ClassMap_new example_hash True True (PyDict (valid_items example_mapping)) example_refcounts
               = Some (Inr st)
         \<and> ClassMap_LookupMember example_hash (fst st) ''z'' (None, 77) = Some (None, 77))
   \<and> ClassMap_LookupMember example_hash example_table ''z'' (None, 77) = Some (None, 77)"
proof -
  let ?new = "ClassMap_new example_hash True True (PyDict (valid_items example_mapping)) example_refcounts"
  have "length example_mapping < 2 ^ 30" by (simp add: example_mapping_def)
  from ClassMap_new_total[OF example_mapping_distinct this, of example_hash example_refcounts]
  obtain st where st: "?new = Some (Inr st)" by blast
  have z: "''z'' \<notin> fst ` set example_mapping" by (simp add: example_mapping_def)
  from absence[OF example_mapping_distinct st, of "''z''" "(None, 77)"] z
  have "ClassMap_LookupMember example_hash (fst st) ''z'' (None, 77) = Some (None, 77)" by blast
  moreover have "ClassMap_LookupMember example_hash example_table ''z'' (None, 77) = Some (None, 77)"
    by code_simp
  ultimately show ?thesis using st z example_mapping_distinct by blast
qed

subsection \<open>C3\<close>

text \<open>
  C3. The capacity that \<open>ClassMap_new\<close> computes is not the claim's for every number of
  entries. For \<open>2 ^ 30 + 3\<close> entries \<open>count * 4\<close> wraps to 12 in 32 bits, the quotient is 4
  and the capacity \<open>next_power_of_2 4 = 4\<close>, where
  \<open>next_power_of_two (ceil (max n 3 * 4 / 3))\<close> is \<open>2 ^ 31\<close>.
\<close>

theorem capacity_planning_overflow:
  "unat (planned_allocated (2 ^ 30 + 3)) = 4 \<and> capacity_plan (2 ^ 30 + 3) = 2 ^ 31
   \<and> unat (planned_allocated (2 ^ 30 + 3)) \<noteq> capacity_plan (2 ^ 30 + 3)"
  by (simp only: planned_allocated_huge capacity_plan_huge) simp

text \<open>
  Where the product does not wrap, below \<open>2 ^ 30\<close> entries, the code computes the capacity of
  the claim: it rounds the quotient down, which gives the same power of two. For 3 entries
  and for none the capacity is 4.
\<close>

lemma capacity_planning_below_2_30:
  "(n < 2 ^ 30 \<longrightarrow> unat (planned_allocated n) = capacity_plan n)
   \<and> planned_allocated 3 = 4 \<and> planned_allocated 0 = 4"
proof (intro conjI impI)
  assume n: "n < 2 ^ 30"
  have "unat (planned_allocated n) = next_power_of_two (max n 3 * 4 div 3)"
    by (rule planned_allocated_small[OF n])
  also have "\<dots> = next_power_of_two ((max n 3 * 4 + 2) div 3)"
    by (rule floor_ceil_same_power) simp
  finally show "unat (planned_allocated n) = capacity_plan n" by (simp add: capacity_plan_def)
qed (rule planned_allocated_3 planned_allocated_0)+

lemma capacity_planning_example:
  "(5::nat) < 2 ^ 30 \<and> unat (planned_allocated 5) = capacity_plan 5 \<and> capacity_plan 5 = 8"
proof -
  have 1: "(5::nat) < 2 ^ 30" by simp
  have 2: "capacity_plan 5 = 8" by code_simp
  from capacity_planning_below_2_30[of 5] 1 2 show ?thesis by blast
qed

subsection \<open>C4\<close>

text \<open>
  C4. The load-factor bound does not hold at every step of every construction. For the
  mapping of \<open>2 ^ 30 + 3\<close> distinct names \<open>count * 4\<close> wraps to 12 and the capacity is 4:
  whatever the hash function, after four insertions the construction loop has a table with
  \<open>count = 4\<close> in 4 slots, and \<open>4 > 4 * 3 / 4\<close>.
\<close>

theorem load_factor_overflow:
  "distinct (map fst huge_mapping)
   \<and> planned_allocated (length huge_mapping) = 4
   \<and> table_load (ClassMap_new_loop h
                    (fresh_table (planned_allocated (length huge_mapping)), rc)
                    (valid_items (take 4 huge_mapping))) = Some (4, 4)
   \<and> \<not> 4 * unat (4::u32) \<le> 3 * unat (4::u32)"
proof -
  have pa: "planned_allocated (length huge_mapping) = 4"
    by (simp only: length_huge_mapping planned_allocated_huge)
  have d4: "distinct (map fst (take 4 huge_mapping))"
    using distinct_huge_mapping by (simp add: take_map[symmetric] distinct_take)
  have wf: "ClassMap_wf (fresh_table 4)"
    using fresh_table_wf[of 3] by (simp add: planned_allocated_3)
  have l4: "length (take 4 huge_mapping) = 4" by (simp add: length_huge_mapping)
  have e4: "length (entries (fresh_table 4)) = 4" by (simp add: fresh_table_def)
  from ClassMap_new_loop_total[OF wf fresh_table_built d4, of h rc] l4 e4
  obtain st4 where
    st4: "ClassMap_new_loop h (fresh_table 4, rc) (valid_items (take 4 huge_mapping)) = Some (Inr st4)"
    by auto
  from ClassMap_new_loop_built[OF d4 fresh_table_built st4]
  have b: "built_from h (fst st4) (take 4 huge_mapping)" and al: "allocated (fst st4) = 4"
    by (simp_all add: fresh_table_def)
  from b l4 have mc: "member_count (fst st4) = 4" by (simp add: built_from_def)
  have "table_load (ClassMap_new_loop h (fresh_table 4, rc) (valid_items (take 4 huge_mapping)))
      = Some (4, 4)"
    by (simp add: st4 table_load_def mc al)
  with pa distinct_huge_mapping show ?thesis by simp
qed

text \<open>
  Below \<open>2 ^ 30\<close> distinct names the bound holds: after each number \<open>j\<close> of insertions the
  construction loop has a table with \<open>count = j\<close>, \<open>4 * count \<le> 3 * allocated\<close> and
  \<open>allocated\<close> a power of two, and the last of them is the table \<open>ClassMap_new\<close> returns.
\<close>

lemma load_factor_below_2_30:
  assumes d: "distinct (map fst kvs)" and sz: "length kvs < 2 ^ 30" and j: "j \<le> length kvs"
  shows "\<exists>st. ClassMap_new_loop h (fresh_table (planned_allocated (length kvs)), rc)
                 (valid_items (take j kvs)) = Some (Inr st)
           \<and> unat (member_count (fst st)) = j
           \<and> 4 * unat (member_count (fst st)) \<le> 3 * unat (allocated (fst st))
           \<and> (\<exists>k \<in> {0 ..< 32}. allocated (fst st) = 2 ^ k)
           \<and> (j = length kvs \<longrightarrow>
                 ClassMap_new h True True (PyDict (valid_items kvs)) rc = Some (Inr st))"
proof -
  let ?t0 = "fresh_table (planned_allocated (length kvs))"
  have dj: "distinct (map fst (take j kvs))" using d by (simp add: take_map[symmetric] distinct_take)
  have ld: "4 * length kvs \<le> 3 * unat (planned_allocated (length kvs))"
    by (rule planned_allocated_load[OF sz])
  then have "length (take j kvs) \<le> length (entries ?t0)" using j by (simp add: fresh_table_def)
  from ClassMap_new_loop_total[OF fresh_table_wf fresh_table_built dj this, of h rc]
  obtain st where st: "ClassMap_new_loop h (?t0, rc) (valid_items (take j kvs)) = Some (Inr st)"
    by blast
  from ClassMap_new_loop_built[OF dj fresh_table_built st]
  have b: "built_from h (fst st) (take j kvs)" and a: "allocated (fst st) = planned_allocated (length kvs)"
    by (simp_all add: fresh_table_def)
  have "member_count (fst st) = word_of_nat j" using b j by (simp add: built_from_def)
  moreover have "j < 2 ^ 32" using j sz by simp
  ultimately have mc: "unat (member_count (fst st)) = j" by (simp add: unat_of_nat)
  have lf: "4 * unat (member_count (fst st)) \<le> 3 * unat (allocated (fst st))"
    using ld j by (simp add: mc a)
  have p2: "\<exists>k \<in> {0 ..< 32}. allocated (fst st) = 2 ^ k"
    using planned_allocated_unat[of "length kvs"] by (auto simp: a)
  have "ClassMap_new h True True (PyDict (valid_items kvs)) rc = Some (Inr st)" if "j = length kvs"
    using st that by (simp add: ClassMap_new_valid)
  with st mc lf p2 show ?thesis by blast
qed

lemma load_factor_example:
  "distinct (map fst example_mapping) \<and> length example_mapping < 2 ^ 30 \<and> 3 \<le> length example_mapping
   \<and> (\<exists>st. ClassMap_new example_hash True True (PyDict (valid_items example_mapping)) example_refcounts
               = Some (Inr st)
         \<and> unat (member_count (fst st)) = 3
         \<and> 4 * unat (member_count (fst st)) \<le> 3 * unat (allocated (fst st)))
   \<and> table_load (ClassMap_new_loop example_hash (fresh_table 4, example_refcounts)
                     (valid_items example_mapping)) = Some (3, 4)"
proof -
  have l: "length example_mapping < 2 ^ 30" and l3: "3 \<le> length example_mapping"
    and e: "length example_mapping = 3"
    by (simp_all add: example_mapping_def)
  from load_factor_below_2_30[OF example_mapping_distinct l l3, of example_hash example_refcounts]
  obtain st where
    "unat (member_count (fst st)) = 3"
    "4 * unat (member_count (fst st)) \<le> 3 * unat (allocated (fst st))"
    "3 = length example_mapping \<longrightarrow>
       ClassMap_new example_hash True True (PyDict (valid_items example_mapping)) example_refcounts
         = Some (Inr st)"
    by blast
  moreover have "table_load (ClassMap_new_loop example_hash (fresh_table 4, example_refcounts)
                     (valid_items example_mapping)) = Some (3, 4)"
    by code_simp
  ultimately show ?thesis using example_mapping_distinct l l3 e by auto
qed

subsection \<open>C5\<close>

text \<open>
  C5. In a well-formed table with a free slot both probe loops return, for every hash
  function and name. The insertion returns after a run of buckets in use that ends at a
  free one, which it fills. The lookup returns after a run of other keys: either the run
  ends at a free slot and the lookup returns the outputs as it got them, or it ends at the
  slot holding the name and the lookup returns the member and index stored there.
\<close>

theorem probe_loops_terminate:
  assumes wf: "ClassMap_wf cmap" and fr: "has_free_slot cmap"
  shows "(\<exists>st'. insert_member h (cmap, rc) nm mem = Some st'
            \<and> ins_path (allocated cmap - 1) nm mem (h nm) (h nm AND (allocated cmap - 1)) (cmap, rc) st')
       \<and> (\<exists>n. (\<forall>j<n. other_key (entries cmap) nm (probe_sequence (allocated cmap - 1) (h nm) j))
            \<and> (free_slot (entries cmap) (probe_sequence (allocated cmap - 1) (h nm) n)
                 \<and> ClassMap_LookupMember h cmap nm out = Some out
               \<or> (\<exists>e. unat (probe_sequence (allocated cmap - 1) (h nm) n) < length (entries cmap)
                     \<and> entries cmap ! unat (probe_sequence (allocated cmap - 1) (h nm) n) = e
                     \<and> name e = Some nm
                     \<and> ClassMap_LookupMember h cmap nm out = Some (member e, index e))))"
proof
  from fr have fr': "\<exists>s < length (entries cmap). name (entries cmap ! s) = None"
    by (simp add: has_free_slot_iff)
  from insert_member_terminates[OF wf fr', of h rc nm mem]
  obtain st' where s: "insert_member h (cmap, rc) nm mem = Some st'" by blast
  from insert_member_SomeD[OF s] s
  show "\<exists>st'. insert_member h (cmap, rc) nm mem = Some st'
            \<and> ins_path (allocated cmap - 1) nm mem (h nm) (h nm AND (allocated cmap - 1)) (cmap, rc) st'"
    by auto
next
  from fr have fr': "\<exists>s < length (entries cmap). name (entries cmap ! s) = None"
    by (simp add: has_free_slot_iff)
  let ?ps = "probe_sequence (allocated cmap - 1) (h nm)"
  from lookup_stops[OF wf fr', of nm h] obtain n where
    n: "\<forall>j<n. other_key (entries cmap) nm (?ps j)"
       "unat (?ps n) < length (entries cmap)"
       "name (entries cmap ! unat (?ps n)) = None \<or> name (entries cmap ! unat (?ps n)) = Some nm"
    by blast
  note at = ClassMap_LookupMember_at[where h=h and nm=nm and cmap=cmap and n=n and out=out, OF n(1,2)]
  from n(3) have "free_slot (entries cmap) (?ps n) \<and> ClassMap_LookupMember h cmap nm out = Some out
      \<or> (\<exists>e. unat (?ps n) < length (entries cmap) \<and> entries cmap ! unat (?ps n) = e
             \<and> name e = Some nm \<and> ClassMap_LookupMember h cmap nm out = Some (member e, index e))"
  proof
    assume f: "name (entries cmap ! unat (?ps n)) = None"
    then have "ClassMap_LookupMember h cmap nm out = Some out" by (simp add: at Let_def)
    with f n(2) show ?thesis by (simp add: free_slot_def)
  next
    assume f: "name (entries cmap ! unat (?ps n)) = Some nm"
    then have "ClassMap_LookupMember h cmap nm out
        = Some (member (entries cmap ! unat (?ps n)), index (entries cmap ! unat (?ps n)))"
      by (simp add: at Let_def)
    with f n(2) show ?thesis by simp
  qed
  with n(1) show "\<exists>n. (\<forall>j<n. other_key (entries cmap) nm (?ps j))
            \<and> (free_slot (entries cmap) (?ps n) \<and> ClassMap_LookupMember h cmap nm out = Some out
               \<or> (\<exists>e. unat (?ps n) < length (entries cmap) \<and> entries cmap ! unat (?ps n) = e
                     \<and> name e = Some nm
                     \<and> ClassMap_LookupMember h cmap nm out = Some (member e, index e)))"
    by blast
qed

theorem probe_loops_terminate_witness:
  "ClassMap_wf example_table \<and> has_free_slot example_table
   \<and> (\<exists>st'. insert_member example_hash (example_table, example_refcounts) ''d'' 4 = Some st')
   \<and> (\<exists>r. ClassMap_LookupMember example_hash example_table ''c'' (None, 0) = Some r)
   \<and> map_option fst (insert_member example_hash (example_table, example_refcounts) ''d'' 4)
       = Some (example_table\<lparr>entries := (entries example_table)
                 [2 := \<lparr>name = Some ''d'', member = Some 4, index = 3\<rparr>], member_count := 4\<rparr>)
   \<and> ClassMap_LookupMember example_hash example_table ''c'' (None, 0) = Some (Some 3, 2)"
proof -
  from probe_loops_terminate[OF example_table_wf example_table_free, of example_hash example_refcounts "''d''" 4]
  have 1: "\<exists>st'. insert_member example_hash (example_table, example_refcounts) ''d'' 4 = Some st'"
    by blast
  from probe_loops_terminate[OF example_table_wf example_table_free, of example_hash _ "''c''" _ "(None, 0)"]
  have 2: "\<exists>r. ClassMap_LookupMember example_hash example_table ''c'' (None, 0) = Some r"
    by blast
  have 3: "map_option fst (insert_member example_hash (example_table, example_refcounts) ''d'' 4)
       = Some (example_table\<lparr>entries := (entries example_table)
                 [2 := \<lparr>name = Some ''d'', member = Some 4, index = 3\<rparr>], member_count := 4\<rparr>)"
    by code_simp
  have 4: "ClassMap_LookupMember example_hash example_table ''c'' (None, 0) = Some (Some 3, 2)"
    by code_simp
  from 1 2 3 4 example_table_wf example_table_free show ?thesis by blast
qed

subsection \<open>C6\<close>

text \<open>
  C6, as amended. For a capacity \<open>2 ^ k\<close> and any hash: from the 8th probe on (7 turns
  shift a 32-bit hash down to 0) any \<open>2 ^ k\<close> consecutive probes go to pairwise distinct
  slots, and every slot is probed within the first \<open>7 + 2 ^ k\<close> probes.
\<close>

theorem probe_sequence_no_revisit:
  assumes k: "k < 32"
  shows "(\<forall>i j. 7 \<le> i \<longrightarrow> i < j \<longrightarrow> j < i + 2 ^ k
            \<longrightarrow> probe_sequence (2 ^ k - 1) hash i \<noteq> probe_sequence (2 ^ k - 1) hash j)
       \<and> (\<forall>s < 2 ^ k. \<exists>n < 7 + 2 ^ k. unat (probe_sequence (2 ^ k - 1) hash n) = s)"
proof (intro conjI allI impI)
  fix i j :: nat
  assume i: "7 \<le> i" and ij: "i < j" and j: "j < i + 2 ^ k"
  have k32: "k \<le> 32" using k by simp
  let ?x = "unat (snd (probe_state (mask k) (hash, hash AND mask k) 7))"
  show "probe_sequence (2 ^ k - 1) hash i \<noteq> probe_sequence (2 ^ k - 1) hash j"
  proof
    assume "probe_sequence (2 ^ k - 1) hash i = probe_sequence (2 ^ k - 1) hash j"
    then have "unat (probe_sequence (mask k) hash j) mod 2 ^ k = unat (probe_sequence (mask k) hash i) mod 2 ^ k"
      by (simp add: pow2_minus1_mask)
    then have "(lcg k ^^ (j - 7)) ?x mod 2 ^ k = (lcg k ^^ (i - 7)) ?x mod 2 ^ k"
      using probe_sequence_tail[OF k32 i, of hash] probe_sequence_tail[OF k32, of j hash] i ij
      by simp
    moreover have "j - 7 = (i - 7) + (j - i)" using i ij by simp
    ultimately have "(lcg k ^^ ((i - 7) + (j - i))) ?x mod 2 ^ k = (lcg k ^^ (i - 7)) ?x mod 2 ^ k"
      by simp
    then have "2 ^ k dvd (j - i)" by (rule lcg_distinct)
    moreover have "0 < j - i" "j - i < 2 ^ k" using ij j by simp_all
    ultimately show False by (auto dest: dvd_imp_le)
  qed
next
  fix s :: nat
  assume s: "s < 2 ^ k"
  have k32: "k \<le> 32" using k by simp
  let ?s7 = "probe_state (mask k) (hash, hash AND mask k) 7"
  obtain n where n: "n < 2 ^ k" "(lcg k ^^ n) (unat (snd ?s7)) mod 2 ^ k = s"
    using lcg_hits_all[OF s] by blast
  have "unat (probe_sequence (mask k) hash (7 + n)) mod 2 ^ k = s"
    using probe_sequence_tail[OF k32, of "7 + n" hash] n(2) by simp
  moreover have "unat (probe_sequence (mask k) hash (7 + n)) < 2 ^ k"
    using bucket_in_range[OF k32, of hash "7 + n"] by (simp add: probe_sequence_def)
  ultimately have "unat (probe_sequence (2 ^ k - 1) hash (7 + n)) = s"
    by (simp add: pow2_minus1_mask)
  with n(1) show "\<exists>n < 7 + 2 ^ k. unat (probe_sequence (2 ^ k - 1) hash n) = s"
    by (intro exI[of _ "7 + n"]) simp
qed

theorem probe_sequence_no_revisit_witness:
  "(2::nat) < 32 \<and> (7::nat) \<le> 7 \<and> (7::nat) < 9 \<and> (9::nat) < 7 + 2 ^ 2
   \<and> probe_sequence (2 ^ 2 - 1) 3 7 \<noteq> probe_sequence (2 ^ 2 - 1) 3 9"
proof -
  have "(2::nat) < 32" by simp
  from probe_sequence_no_revisit[OF this, of 3]
  have "probe_sequence (2 ^ 2 - 1) 3 7 \<noteq> probe_sequence (2 ^ 2 - 1) 3 9" by simp
  then show ?thesis by simp
qed

text \<open>
  With hash 3 and capacity 4 the first two probes both go to slot 3: the hash is added
  unshifted in the first turn.
\<close>

theorem probe_sequence_no_revisit_counterexample:
  "probe_sequence (2 ^ 2 - 1) 3 0 = 3 \<and> probe_sequence (2 ^ 2 - 1) 3 1 = 3"
  by code_simp

subsection \<open>C7\<close>

text \<open>
  C7. \<open>ClassMap_new\<close> does not report the type error for every mapping with a bad key. Take
  the dict of \<open>2 ^ 30 + 3\<close> items whose sixth key is not a string, the others being distinct
  strings with Member values. Its capacity is 4 (\<open>count * 4\<close> wraps to 12), the first four
  insertions fill the table, and the fifth, of a valid item, finds no free slot: its loop
  never ends. Whatever the hash function, \<open>ClassMap_new\<close> does not return, so it never
  reaches the bad key and reports no error.
\<close>

theorem construction_type_error_overflow:
  "\<not> PyString_Check (PyOther 0) \<and> (PyOther 0, Member 5) \<in> set huge_items_bad
   \<and> length huge_items_bad = 2 ^ 30 + 3
   \<and> planned_allocated (length huge_items_bad) = 4
   \<and> ClassMap_new h True True (PyDict huge_items_bad) rc = None"
proof -
  have pa: "planned_allocated (length huge_items_bad) = 4"
    by (simp only: length_huge_items_bad planned_allocated_huge)
  moreover have "ClassMap_new_loop h (fresh_table 4, rc) huge_items_bad = None"
    unfolding huge_items_bad_def ClassMap_new_loop_append
    by (simp only: ClassMap_new_loop_huge option.case)
  ultimately have "ClassMap_new h True True (PyDict huge_items_bad) rc = None"
    by (simp add: ClassMap_new_def Let_def fresh_table_def)
  moreover have "\<not> PyString_Check (PyOther 0) \<and> (PyOther 0, Member 5) \<in> set huge_items_bad"
    by (simp add: PyString_Check_def huge_items_bad_def)
  ultimately show ?thesis using pa length_huge_items_bad by blast
qed

text \<open>
  Below \<open>2 ^ 30\<close> items the error is reported. Let the items of the dict be valid items with
  distinct names, then an item whose key is not a string or whose value is not a Member,
  then anything. Whatever their number, \<open>ClassMap_new\<close> returns no table. When they are
  fewer than \<open>2 ^ 30\<close> and both allocations succeed, the loop stops at the bad item with the
  type error naming the key (expected \<open>str\<close>) or else the value (expected \<open>Member\<close>); the
  occupied slots of the table at that point are the entries of the items before the bad
  one, no more; and \<open>ClassMap_new\<close> returns that error, having disposed of the table, with
  every reference count as it was before the call.
\<close>

lemma construction_type_error_below_2_30:
  assumes d: "distinct (map fst pre)"
    and bad: "\<not> (PyString_Check key \<and> Member_Check val)"
    and items: "items = valid_items pre @ (key, val) # rest"
  shows "(\<forall>st. ClassMap_new h ta ma (PyDict items) rc \<noteq> Some (Inr st))
       \<and> (length items < 2 ^ 30 \<longrightarrow>
            (\<exists>st1.
               ClassMap_new_loop h (fresh_table (planned_allocated (length items)), rc) items
                 = Some (Inl (type_error key val, st1))
             \<and> mset (filter occupied (entries (fst st1)))
                 = mset (map (entry_of pre) [0 ..< length pre]))
             \<and> ClassMap_new h True True (PyDict items) rc = Some (Inl (type_error key val, rc)))"
proof (intro conjI allI impI)
  fix st
  have "ClassMap_new_loop h st0 items \<noteq> Some (Inr st)" for st0
    unfolding items ClassMap_new_loop_pre_bad[OF bad]
    by (simp split: option.splits sum.splits)
  then show "ClassMap_new h ta ma (PyDict items) rc \<noteq> Some (Inr st)"
    by (simp add: ClassMap_new_Inr_iff)
next
  assume sz: "length items < 2 ^ 30"
  let ?t0 = "fresh_table (planned_allocated (length items))"
  have t0: "length (entries ?t0) = unat (allocated ?t0)" by (simp add: fresh_table_def)
  have "length pre < length items" by (simp add: items length_valid_items)
  moreover have "4 * length items \<le> 3 * unat (planned_allocated (length items))"
    by (rule planned_allocated_load[OF sz])
  ultimately have "length pre \<le> length (entries ?t0)" by (simp add: fresh_table_def)
  from ClassMap_new_loop_total[OF fresh_table_wf fresh_table_built d this, of h rc]
  obtain st1 where st1: "ClassMap_new_loop h (?t0, rc) (valid_items pre) = Some (Inr st1)" by blast
  from ClassMap_new_loop_built[OF d fresh_table_built st1]
  have "built_from h (fst st1) pre" by simp
  then have b: "mset (filter occupied (entries (fst st1))) = mset (map (entry_of pre) [0 ..< length pre])"
    by (simp only: built_from_def)
  have rc': "ClassMap_dealloc st1 = Some rc"
    by (rule ClassMap_dealloc_restores[OF d fresh_table_built t0 st1])
  have l: "ClassMap_new_loop h (?t0, rc) items = Some (Inl (type_error key val, st1))"
    unfolding items ClassMap_new_loop_pre_bad[OF bad] using st1 by (simp add: items)
  with b show "\<exists>st1.
               ClassMap_new_loop h (fresh_table (planned_allocated (length items)), rc) items
                 = Some (Inl (type_error key val, st1))
             \<and> mset (filter occupied (entries (fst st1)))
                 = mset (map (entry_of pre) [0 ..< length pre])"
    by blast
  from l rc' show "ClassMap_new h True True (PyDict items) rc = Some (Inl (type_error key val, rc))"
    by (simp add: ClassMap_new_def Let_def fresh_table_def)
qed

lemma construction_type_error_example:
  "distinct (map fst [(''a'', 1::nat)]) \<and> \<not> (PyString_Check (PyOther 7) \<and> Member_Check (Member 2))
   \<and> example_items_bad = valid_items [(''a'', 1)] @ (PyOther 7, Member 2) # [(PyString ''c'', Member 3)]
   \<and> length example_items_bad < 2 ^ 30
   \<and> ClassMap_new example_hash True True (PyDict example_items_bad) example_refcounts
       = Some (Inl (ExpectedTypeFail (PyOther 7) ''str'', example_refcounts))
   \<and> map_option (map_sum fst fst)
         (ClassMap_new example_hash True True
            (PyDict [(PyString ''a'', Member 1), (PyString ''b'', PyOther 8)]) example_refcounts)
       = Some (Inl (ExpectedTypeFail (PyOther 8) ''Member''))"
proof -
  have d: "distinct (map fst [(''a'', 1::nat)])" by simp
  have b: "\<not> (PyString_Check (PyOther 7) \<and> Member_Check (Member 2))"
    by (simp add: PyString_Check_def)
  have i: "example_items_bad = valid_items [(''a'', 1)] @ (PyOther 7, Member 2) # [(PyString ''c'', Member 3)]"
    by (simp add: example_items_bad_def valid_items_def)
  have l: "length example_items_bad < 2 ^ 30" by (simp add: example_items_bad_def)
  from construction_type_error_below_2_30[OF d b i, of example_hash True True example_refcounts] l
  have "ClassMap_new example_hash True True (PyDict example_items_bad) example_refcounts
                = Some (Inl (type_error (PyOther 7) (Member 2), example_refcounts))" by blast
  then have 1: "ClassMap_new example_hash True True (PyDict example_items_bad) example_refcounts
                = Some (Inl (ExpectedTypeFail (PyOther 7) ''str'', example_refcounts))"
    by (simp add: type_error_def PyString_Check_def)
  have 2: "map_option (map_sum fst fst)
         (ClassMap_new example_hash True True
            (PyDict [(PyString ''a'', Member 1), (PyString ''b'', PyOther 8)]) example_refcounts)
       = Some (Inl (ExpectedTypeFail (PyOther 8) ''Member''))"
    by code_simp
  from d b i l 1 2 show ?thesis by blast
qed

subsection \<open>C8\<close>

text \<open>
  C8. In every table that \<open>ClassMap_new\<close> returns for a mapping with distinct names, the
  indices held by the occupied slots are, as a multiset, \<open>0, 1, \<dots>, count - 1\<close>, where
  \<open>count\<close> (\<open>member_count\<close>) is the number of names, and the \<open>i\<close>-th name of the iteration
  order is stored with index \<open>i\<close>, whatever the order and the hash function are.
\<close>

theorem index_density:
  assumes "distinct (map fst kvs)"
    and "ClassMap_new h ta ma (PyDict (valid_items kvs)) rc = Some (Inr st)"
  shows "mset (map (\<lambda>e. unat (index e)) (filter occupied (entries (fst st))))
           = mset [0 ..< unat (member_count (fst st))]
       \<and> unat (member_count (fst st)) = length kvs
       \<and> (\<forall>i < length kvs.
            \<lparr>name = Some (fst (kvs ! i)), member = Some (snd (kvs ! i)), index = word_of_nat i\<rparr>
              \<in> set (entries (fst st)))"
proof -
  note b = ClassMap_new_built[OF assms]
  have "length kvs \<le> length (entries (fst st))"
    unfolding built_from_length[OF b(1)] by (rule length_filter_le)
  also have "\<dots> = unat (allocated (fst st))" using b(3) by (simp add: ClassMap_wf_def)
  also have "\<dots> < 2 ^ 32" using unsigned_less[of "allocated (fst st)", where 'a=nat] by simp
  finally have small: "length kvs < 2 ^ 32" .
  then have u: "unat (word_of_nat i :: u32) = i" if "i < length kvs" for i
    using that by (simp add: unat_of_nat)
  have mc: "unat (member_count (fst st)) = length kvs"
    using b(1) small by (simp add: built_from_def unat_of_nat)
  have "mset (filter occupied (entries (fst st))) = mset (map (entry_of kvs) [0 ..< length kvs])"
    using b(1) by (simp only: built_from_def)
  then have "image_mset (\<lambda>e. unat (index e)) (mset (filter occupied (entries (fst st))))
      = image_mset (\<lambda>e. unat (index e)) (mset (map (entry_of kvs) [0 ..< length kvs]))"
    by (rule arg_cong)
  then have "mset (map (\<lambda>e. unat (index e)) (filter occupied (entries (fst st))))
      = mset (map (\<lambda>e. unat (index e)) (map (entry_of kvs) [0 ..< length kvs]))"
    by (simp only: mset_map)
  also have "map (\<lambda>e. unat (index e)) (map (entry_of kvs) [0 ..< length kvs])
      = map (\<lambda>i. unat (index (entry_of kvs i))) [0 ..< length kvs]"
    by (simp add: comp_def)
  also have "\<dots> = map (\<lambda>i. i) [0 ..< length kvs]"
    by (rule map_cong) (simp_all add: entry_of_def u)
  finally have "mset (map (\<lambda>e. unat (index e)) (filter occupied (entries (fst st))))
      = mset [0 ..< length kvs]" by simp
  moreover have "\<forall>i < length kvs.
      \<lparr>name = Some (fst (kvs ! i)), member = Some (snd (kvs ! i)), index = word_of_nat i\<rparr>
        \<in> set (entries (fst st))"
    using built_from_entry_in_table[OF b(1)] by (simp add: entry_of_def)
  ultimately show ?thesis using mc by simp
qed

theorem index_density_witness:
  "distinct (map fst example_mapping)
   \<and> (\<exists>st. ClassMap_new example_hash True True (PyDict (valid_items example_mapping)) example_refcounts
               = Some (Inr st)
         \<and> mset (map (\<lambda>e. unat (index e)) (filter occupied (entries (fst st)))) = mset [0 ..< 3]
         \<and> unat (member_count (fst st)) = 3)"
proof -
  let ?new = "ClassMap_new example_hash True True (PyDict (valid_items example_mapping)) example_refcounts"
  have "length example_mapping < 2 ^ 30" by (simp add: example_mapping_def)
  from ClassMap_new_total[OF example_mapping_distinct this, of example_hash example_refcounts]
  obtain st where st: "?new = Some (Inr st)" by blast
  have l3: "length example_mapping = 3" by (simp add: example_mapping_def)
  from index_density[OF example_mapping_distinct st]
  have "mset (map (\<lambda>e. unat (index e)) (filter occupied (entries (fst st))))
          = mset [0 ..< unat (member_count (fst st))]"
    "unat (member_count (fst st)) = length example_mapping"
    by blast+
  then have "mset (map (\<lambda>e. unat (index e)) (filter occupied (entries (fst st)))) = mset [0 ..< 3]"
    "unat (member_count (fst st)) = 3"
    by (simp_all only: l3)
  with st example_mapping_distinct show ?thesis by blast
qed

subsection \<open>C9\<close>

text \<open>
  C9. For a table whose entry array has \<open>allocated\<close> slots: \<open>ClassMap_clear\<close> drops one
  reference for each key and each value a slot holds and leaves every slot empty
  (\<open>allocated\<close> and \<open>member_count\<close> stay); clearing again changes nothing;
  \<open>ClassMap_traverse\<close> shows a visitor the key and the value of every occupied slot, in
  slot order, up to the first object at which the visitor returns a value other than 0 (a
  visitor that records and goes on sees exactly all of them); after a clear it shows
  nothing.
\<close>

theorem clear_and_traverse:
  assumes "length (entries cmap) = unat (allocated cmap)"
  shows "\<exists>cmap' rc'.
           ClassMap_clear (cmap, rc) = Some (cmap', rc')
         \<and> list_all (\<lambda>e. name e = None) (entries cmap')
         \<and> (\<forall>ob. rc' ob = rc ob - int (count_list (stored_refs (entries cmap)) ob))
         \<and> ClassMap_clear (cmap', rc') = Some (cmap', rc')
         \<and> ClassMap_traverse cmap record_visit [] = Some (0, stored_refs (entries cmap))
         \<and> ClassMap_traverse cmap visit arg = Some (visit_all visit (stored_refs (entries cmap)) arg)
         \<and> ClassMap_traverse cmap' visit arg = Some (0, arg)
         \<and> allocated cmap' = allocated cmap \<and> member_count cmap' = member_count cmap
         \<and> length (entries cmap') = length (entries cmap)"
proof -
  let ?cmap' = "cmap\<lparr>entries := map cleared_entry (entries cmap)\<rparr>"
  let ?rc' = "release_all (stored_refs (entries cmap)) rc"
  have l': "length (entries ?cmap') = unat (allocated ?cmap')" using assms by simp
  have 1: "ClassMap_clear (cmap, rc) = Some (?cmap', ?rc')" by (rule ClassMap_clear_eq[OF assms])
  have 2: "list_all (\<lambda>e. name e = None) (entries ?cmap')"
    by (simp add: list_all_iff name_cleared_entry)
  have 3: "\<forall>ob. ?rc' ob = rc ob - int (count_list (stored_refs (entries cmap)) ob)"
    by (simp add: release_all_count)
  have 4: "ClassMap_clear (?cmap', ?rc') = Some (?cmap', ?rc')"
    unfolding ClassMap_clear_eq[OF l']
    by (simp add: stored_refs_cleared cleared_entry_idem release_all_def)
  have 5: "ClassMap_traverse cmap record_visit [] = Some (0, stored_refs (entries cmap))"
    by (simp add: ClassMap_traverse_eq[OF assms] visit_all_record)
  have 6: "ClassMap_traverse cmap visit arg = Some (visit_all visit (stored_refs (entries cmap)) arg)"
    by (rule ClassMap_traverse_eq[OF assms])
  have 7: "ClassMap_traverse ?cmap' visit arg = Some (0, arg)"
    by (simp add: ClassMap_traverse_eq[OF l'] stored_refs_cleared)
  from 1 2 3 4 5 6 7 show ?thesis by (intro exI[of _ ?cmap'] exI[of _ ?rc']) simp
qed

theorem clear_and_traverse_witness:
  "length (entries example_table) = unat (allocated example_table)
   \<and> ClassMap_traverse example_table record_visit []
       = Some (0, [PyString ''b'', Member 2, PyString ''c'', Member 3, PyString ''a'', Member 1])
   \<and> (\<exists>cmap' rc'. ClassMap_clear (example_table, example_refcounts) = Some (cmap', rc')
         \<and> entries cmap' = [\<lparr>name = None, member = None, index = 1\<rparr>,
                           \<lparr>name = None, member = None, index = 2\<rparr>,
                           \<lparr>name = None, member = None, index = 0\<rparr>,
                           \<lparr>name = None, member = None, index = 0\<rparr>]
         \<and> rc' (PyString ''a'') = 0 \<and> rc' (Member 3) = 0 \<and> rc' (Member 4) = 1
         \<and> ClassMap_clear (cmap', rc') = Some (cmap', rc')
         \<and> ClassMap_traverse cmap' record_visit [] = Some (0, []))"
proof -
  have l: "length (entries example_table) = unat (allocated example_table)"
    by (simp add: example_table_def)
  have s: "stored_refs (entries example_table)
             = [PyString ''b'', Member 2, PyString ''c'', Member 3, PyString ''a'', Member 1]"
    by (simp add: stored_refs_def entry_refs_def example_table_def)
  from clear_and_traverse[OF l, of example_refcounts record_visit "[]"]
  obtain cmap' rc' where c:
    "ClassMap_clear (example_table, example_refcounts) = Some (cmap', rc')"
    "\<forall>ob. rc' ob = example_refcounts ob - int (count_list (stored_refs (entries example_table)) ob)"
    "ClassMap_clear (cmap', rc') = Some (cmap', rc')"
    "ClassMap_traverse example_table record_visit [] = Some (0, stored_refs (entries example_table))"
    "ClassMap_traverse cmap' record_visit [] = Some (0, [])"
    by blast
  from c(1) have "entries cmap' = map cleared_entry (entries example_table)"
    by (auto simp: ClassMap_clear_eq[OF l])
  then have e: "entries cmap' = [\<lparr>name = None, member = None, index = 1\<rparr>,
                           \<lparr>name = None, member = None, index = 2\<rparr>,
                           \<lparr>name = None, member = None, index = 0\<rparr>,
                           \<lparr>name = None, member = None, index = 0\<rparr>]"
    by (simp add: example_table_def cleared_entry_def)
  from c(2) have r: "rc' (PyString ''a'') = 0" "rc' (Member 3) = 0" "rc' (Member 4) = 1"
    by (simp_all add: s example_refcounts_def)
  from c(4) have t: "ClassMap_traverse example_table record_visit []
       = Some (0, [PyString ''b'', Member 2, PyString ''c'', Member 3, PyString ''a'', Member 1])"
    by (simp only: s)
  from l t c(1,3,5) e r show ?thesis by blast
qed

subsection \<open>C10\<close>

text \<open>
  C10. A lookup of a name that no slot holds does not write \<open>*member\<close> and \<open>*index\<close>:
  whenever it returns, the outputs are what the caller put there; and in a well-formed
  table with a free slot it does return.
\<close>

theorem not_found_leaves_outputs:
  "(\<forall>r. \<not> stores cmap nm \<longrightarrow> ClassMap_LookupMember h cmap nm out = Some r \<longrightarrow> r = out)
   \<and> (ClassMap_wf cmap \<longrightarrow> has_free_slot cmap \<longrightarrow> \<not> stores cmap nm
        \<longrightarrow> ClassMap_LookupMember h cmap nm out = Some out)"
proof (intro conjI allI impI)
  fix r
  assume ab: "\<not> stores cmap nm"
    and r: "ClassMap_LookupMember h cmap nm out = Some r"
  from r have "unwritten (entries cmap) (allocated cmap - 1) nm (h nm) (h nm AND (allocated cmap - 1)) out r"
    unfolding ClassMap_LookupMember_def Let_def by (rule lookup_loop_unwritten)
  with ab show "r = out" by (simp add: unwritten_def stores_iff)
next
  assume "ClassMap_wf cmap" "has_free_slot cmap" "\<not> stores cmap nm"
  then show "ClassMap_LookupMember h cmap nm out = Some out"
    by (intro ClassMap_LookupMember_absent) (simp_all add: has_free_slot_iff stores_iff)
qed

theorem not_found_leaves_outputs_witness:
  "ClassMap_wf example_table \<and> has_free_slot example_table \<and> \<not> stores example_table ''z''
   \<and> ClassMap_LookupMember example_hash example_table ''z'' (Some 9, 77) = Some (Some 9, 77)"
proof -
  have n: "\<not> stores example_table ''z''" by (simp add: stores_def example_table_def)
  from not_found_leaves_outputs[of example_table "''z''" example_hash "(Some 9, 77)"]
    example_table_wf example_table_free n
  show ?thesis by blast
qed

end
